theory Spec2Isabelle
  imports Main "HOL-Library.Multiset"
begin

section \<open>Data model of \<open>puyo_game.py\<close>\<close>

text \<open>
  Cell colors are stored as Python ints: \<open>0\<close> is EMPTY, \<open>1 .. 5\<close> are the five colors.
  The board is a list of rows (row 0 is the top), each row a list of ints.
\<close>

definition GRID_WIDTH :: int where
  "GRID_WIDTH = 6"

definition GRID_HEIGHT :: int where
  "GRID_HEIGHT = 12"

datatype error = IndexError

text \<open>Python list indexing: a negative index counts from the end, anything else out of
  range raises \<open>IndexError\<close>.\<close>

definition py_index :: "'a list \<Rightarrow> int \<Rightarrow> error + 'a" where
  "py_index xs i =
     (if 0 \<le> i \<and> i < int (length xs) then Inr (xs ! nat i)
      else if i < 0 \<and> - int (length xs) \<le> i then Inr (xs ! nat (int (length xs) + i))
      else Inl IndexError)"

record Position =
  pos_x :: int
  pos_y :: int

definition Position_add :: "Position \<Rightarrow> Position \<Rightarrow> Position" where
  "Position_add a b = \<lparr>pos_x = pos_x a + pos_x b, pos_y = pos_y a + pos_y b\<rparr>"

record PuyoPair =
  main_puyo :: Position
  sub_puyo :: Position
  main_color :: int
  sub_color :: int
  rotation_state :: int

text \<open>\<open>PuyoPair.__init__\<close>; the default anchor is \<open>(GRID_WIDTH // 2 - 1, 0)\<close>.\<close>

definition PuyoPair_init :: "int \<Rightarrow> int \<Rightarrow> int \<Rightarrow> int \<Rightarrow> PuyoPair" where
  "PuyoPair_init color1 color2 x y =
     \<lparr>main_puyo = \<lparr>pos_x = x, pos_y = y\<rparr>,
      sub_puyo = \<lparr>pos_x = x + 1, pos_y = y\<rparr>,
      main_color = color1, sub_color = color2, rotation_state = 0\<rparr>"

definition spawn_x :: int where
  "spawn_x = GRID_WIDTH div 2 - 1"

definition offsets :: "Position list" where
  "offsets = [\<lparr>pos_x = 1, pos_y = 0\<rparr>, \<lparr>pos_x = 0, pos_y = 1\<rparr>,
              \<lparr>pos_x = - 1, pos_y = 0\<rparr>, \<lparr>pos_x = 0, pos_y = - 1\<rparr>]"

definition get_positions :: "PuyoPair \<Rightarrow> error + (Position \<times> Position)" where
  "get_positions p =
     (case py_index offsets (rotation_state p) of
        Inl e \<Rightarrow> Inl e
      | Inr off \<Rightarrow> Inr (main_puyo p, Position_add (main_puyo p) off))"

definition rotate_clockwise :: "PuyoPair \<Rightarrow> PuyoPair" where
  "rotate_clockwise p = p\<lparr>rotation_state := (rotation_state p + 1) mod 4\<rparr>"

definition rotate_counter_clockwise :: "PuyoPair \<Rightarrow> PuyoPair" where
  "rotate_counter_clockwise p = p\<lparr>rotation_state := (rotation_state p - 1) mod 4\<rparr>"

definition move :: "PuyoPair \<Rightarrow> int \<Rightarrow> int \<Rightarrow> PuyoPair" where
  "move p dx dy =
     p\<lparr>main_puyo := \<lparr>pos_x = pos_x (main_puyo p) + dx, pos_y = pos_y (main_puyo p) + dy\<rparr>\<rparr>"

subsection \<open>The board\<close>

record GameGrid =
  width :: int
  height :: int
  grid :: "int list list"

definition GameGrid_init :: "int \<Rightarrow> int \<Rightarrow> GameGrid" where
  "GameGrid_init w h =
     \<lparr>width = w, height = h, grid = replicate (nat h) (replicate (nat w) 0)\<rparr>"

text \<open>The shape invariant that \<open>GameGrid.__init__\<close> establishes and every method keeps:
  \<open>height\<close> rows of \<open>width\<close> cells. All bounds checks of the class compare against the
  two fields, so under this invariant every guarded read and write is in range.\<close>

definition wf_grid :: "GameGrid \<Rightarrow> bool" where
  "wf_grid g \<longleftrightarrow>
     0 \<le> width g \<and> 0 \<le> height g \<and> int (length (grid g)) = height g \<and>
     (\<forall>row \<in> set (grid g). int (length row) = width g)"

text \<open>\<open>self.grid[y][x]\<close> and \<open>self.grid[y][x] = v\<close> at coordinates already checked to be
  in range.\<close>

definition cell_at :: "GameGrid \<Rightarrow> int \<Rightarrow> int \<Rightarrow> int" where
  "cell_at g x y = grid g ! nat y ! nat x"

definition set_cell :: "GameGrid \<Rightarrow> int \<Rightarrow> int \<Rightarrow> int \<Rightarrow> GameGrid" where
  "set_cell g x y v = g\<lparr>grid := (grid g)[nat y := (grid g ! nat y)[nat x := v]]\<rparr>"

definition in_bounds :: "GameGrid \<Rightarrow> int \<Rightarrow> int \<Rightarrow> bool" where
  "in_bounds g x y \<longleftrightarrow> 0 \<le> x \<and> x < width g \<and> 0 \<le> y \<and> y < height g"

definition is_valid_position :: "GameGrid \<Rightarrow> int \<Rightarrow> int \<Rightarrow> bool" where
  "is_valid_position g x y \<longleftrightarrow>
     0 \<le> x \<and> x < width g \<and> 0 \<le> y \<and> y < height g \<and> cell_at g x y = 0"

definition can_place_pair :: "GameGrid \<Rightarrow> PuyoPair \<Rightarrow> error + bool" where
  "can_place_pair g pair =
     (case get_positions pair of
        Inl e \<Rightarrow> Inl e
      | Inr (main_pos, sub_pos) \<Rightarrow>
          Inr (is_valid_position g (pos_x main_pos) (pos_y main_pos) \<and>
               is_valid_position g (pos_x sub_pos) (pos_y sub_pos)))"

definition place_puyo :: "GameGrid \<Rightarrow> int \<Rightarrow> int \<Rightarrow> int \<Rightarrow> GameGrid" where
  "place_puyo g x y color =
     (if 0 \<le> x \<and> x < width g \<and> 0 \<le> y \<and> y < height g then set_cell g x y color else g)"

text \<open>The occupied (non-EMPTY) cells of the board and their number.\<close>

definition occupied_cells :: "GameGrid \<Rightarrow> (int \<times> int) set" where
  "occupied_cells g = {(x, y). in_bounds g x y \<and> cell_at g x y \<noteq> 0}"

definition occupied :: "GameGrid \<Rightarrow> nat" where
  "occupied g = card (occupied_cells g)"

text \<open>Column \<open>x\<close> of the board, read from the top row to the bottom row.\<close>

definition column :: "GameGrid \<Rightarrow> int \<Rightarrow> int list" where
  "column g x = map (\<lambda>row. row ! nat x) (grid g)"

subsection \<open>Gravity\<close>

text \<open>
  \<open>apply_gravity\<close>, loop by loop. \<open>gravity_collect x y\<close> is the body of the inner
  \<open>for y in range(height - 1, -1, -1)\<close> loop on the pair (\<open>puyos\<close>, board);
  \<open>gravity_column\<close> is the body of the outer \<open>for x in range(width)\<close> loop, whose second
  inner loop writes \<open>puyos\<close> back from the bottom row upwards.
\<close>

definition gravity_collect :: "int \<Rightarrow> int \<Rightarrow> int list \<times> GameGrid \<Rightarrow> int list \<times> GameGrid" where
  "gravity_collect x y pg =
     (let puyos = fst pg; g = snd pg;
          puyos = (if cell_at g x y \<noteq> 0 then puyos @ [cell_at g x y] else puyos)
      in (puyos, set_cell g x y 0))"

definition gravity_write :: "int \<Rightarrow> nat \<times> int \<Rightarrow> GameGrid \<Rightarrow> GameGrid" where
  "gravity_write x ip g = set_cell g x (height g - 1 - int (fst ip)) (snd ip)"

definition gravity_column :: "int \<Rightarrow> GameGrid \<Rightarrow> GameGrid" where
  "gravity_column x g =
     (let pg = fold (gravity_collect x) (rev (map int [0..<nat (height g)])) ([], g)
      in fold (gravity_write x) (enumerate 0 (fst pg)) (snd pg))"

definition apply_gravity :: "GameGrid \<Rightarrow> GameGrid" where
  "apply_gravity g = fold gravity_column (map int [0..<nat (width g)]) g"

subsection \<open>Connected groups\<close>

text \<open>
  \<open>find_connected_puyos\<close> is a recursive flood fill that mutates the shared set
  \<open>visited\<close>; the model returns the pair (\<open>connected\<close>, \<open>visited\<close> after the call). The
  loop over the four \<open>directions\<close> \<open>(0, 1), (0, -1), (1, 0), (-1, 0)\<close> is unrolled. The
  interpreter's recursion limit is not modelled: the depth of the recursion is at most
  the number of cells plus one, 73 on the default board.
\<close>

function find_connected_puyos ::
  "GameGrid \<Rightarrow> int \<Rightarrow> int \<Rightarrow> int \<Rightarrow> (int \<times> int) set \<Rightarrow> (int \<times> int) set \<times> (int \<times> int) set" where
  "find_connected_puyos g start_x start_y color visited =
     (if (start_x, start_y) \<in> visited then ({}, visited)
      else if start_x < 0 \<or> start_x \<ge> width g \<or> start_y < 0 \<or> start_y \<ge> height g \<or>
              cell_at g start_x start_y \<noteq> color then ({}, visited)
      else
        let visited = insert (start_x, start_y) visited;
            connected = {(start_x, start_y)};
            (new_connected, visited) = find_connected_puyos g start_x (start_y + 1) color visited;
            connected = connected \<union> new_connected;
            (new_connected, visited) = find_connected_puyos g start_x (start_y - 1) color visited;
            connected = connected \<union> new_connected;
            (new_connected, visited) = find_connected_puyos g (start_x + 1) start_y color visited;
            connected = connected \<union> new_connected;
            (new_connected, visited) = find_connected_puyos g (start_x - 1) start_y color visited;
            connected = connected \<union> new_connected
        in (connected, visited))"
  by pat_completeness auto

text \<open>Termination: every recursive call runs on a strictly larger \<open>visited\<close> set within
  the finite board, because a call never removes a cell from \<open>visited\<close>.\<close>

lemma fcp_visited_mono:
  "find_connected_puyos_dom (g, x, y, c, V) \<Longrightarrow> V \<subseteq> snd (find_connected_puyos g x y c V)"
proof (induction g x y c V rule: find_connected_puyos.pinduct)
  case (1 g x y c V)
  show ?case
  proof (cases "(x, y) \<in> V \<or> x < 0 \<or> x \<ge> width g \<or> y < 0 \<or> y \<ge> height g \<or> cell_at g x y \<noteq> c")
    case True
    then show ?thesis using "1.hyps" by (auto simp: find_connected_puyos.psimps)
  next
    case False
    obtain c1 v1 where r1: "find_connected_puyos g x (y + 1) c (insert (x, y) V) = (c1, v1)"
      by (cases "find_connected_puyos g x (y + 1) c (insert (x, y) V)")
    obtain c2 v2 where r2: "find_connected_puyos g x (y - 1) c v1 = (c2, v2)"
      by (cases "find_connected_puyos g x (y - 1) c v1")
    obtain c3 v3 where r3: "find_connected_puyos g (x + 1) y c v2 = (c3, v3)"
      by (cases "find_connected_puyos g (x + 1) y c v2")
    obtain c4 v4 where r4: "find_connected_puyos g (x - 1) y c v3 = (c4, v4)"
      by (cases "find_connected_puyos g (x - 1) y c v3")
    have i1: "insert (x, y) V \<subseteq> v1" using "1.IH"(1)[OF _ _ refl refl] False r1 by auto
    have i2: "v1 \<subseteq> v2" using "1.IH"(2)[OF _ _ refl refl refl r1[symmetric] refl] False r2 by auto
    have i3: "v2 \<subseteq> v3"
      using "1.IH"(3)[OF _ _ refl refl refl r1[symmetric] refl refl r2[symmetric] refl] False r3
      by auto
    have i4: "v3 \<subseteq> v4"
      using "1.IH"(4)[OF _ _ refl refl refl r1[symmetric] refl refl r2[symmetric] refl refl
          r3[symmetric] refl] False r4
      by auto
    have "find_connected_puyos g x y c V = ({(x, y)} \<union> c1 \<union> c2 \<union> c3 \<union> c4, v4)"
      using False "1.hyps" r1 r2 r3 r4 by (simp add: find_connected_puyos.psimps)
    then show ?thesis using i1 i2 i3 i4 by auto
  qed
qed

lemma fcp_visited_mono_pair:
  "find_connected_puyos_dom (g, x, y, c, V) \<Longrightarrow> (C, V') = find_connected_puyos g x y c V \<Longrightarrow>
   V \<subseteq> V'"
  using fcp_visited_mono[of g x y c V] by (metis snd_conv)

definition unvisited :: "GameGrid \<Rightarrow> (int \<times> int) set \<Rightarrow> nat" where
  "unvisited g V = card (({0..<width g} \<times> {0..<height g}) - V)"

lemma unvisited_less:
  assumes "0 \<le> x" "x < width g" "0 \<le> y" "y < height g" "(x, y) \<notin> V" "insert (x, y) V \<subseteq> V'"
  shows "unvisited g V' < unvisited g V"
  unfolding unvisited_def
proof (rule psubset_card_mono)
  show "finite ({0..<width g} \<times> {0..<height g} - V)" by simp
  show "{0..<width g} \<times> {0..<height g} - V' \<subset> {0..<width g} \<times> {0..<height g} - V"
    using assms by auto
qed

termination find_connected_puyos
  apply (relation "measure (\<lambda>(g, x, y, c, V). unvisited g V)")
  apply simp
  subgoal for g x y c V v0 conn
    using unvisited_less[of x g y V v0] by auto
  subgoal for g x y c V v0 conn r1 c1 v1 conn1
    using fcp_visited_mono_pair[of g x "y + 1" c v0 c1 v1] unvisited_less[of x g y V v1]
    by auto
  subgoal for g x y c V v0 conn r1 c1 v1 conn1 r2 c2 v2 conn2
    using fcp_visited_mono_pair[of g x "y + 1" c v0 c1 v1]
      fcp_visited_mono_pair[of g x "y - 1" c v1 c2 v2] unvisited_less[of x g y V v2]
    by auto
  subgoal for g x y c V v0 conn r1 c1 v1 conn1 r2 c2 v2 conn2 r3 c3 v3 conn3
    using fcp_visited_mono_pair[of g x "y + 1" c v0 c1 v1]
      fcp_visited_mono_pair[of g x "y - 1" c v1 c2 v2]
      fcp_visited_mono_pair[of g "x + 1" y c v2 c3 v3] unvisited_less[of x g y V v3]
    by auto
  done

declare find_connected_puyos.simps [simp del]

text \<open>
  \<open>find_and_clear_groups\<close>. \<open>scan_cell\<close> is the body of the inner \<open>for x\<close> loop on the
  triple (\<open>visited\<close>, \<open>to_clear\<close>, \<open>groups_cleared\<close>). The final loop
  \<open>for x, y in to_clear: grid[y][x] = 0\<close> runs over a set, in no specified order; every
  member is in range and all writes store 0, so it is modelled by \<open>clear_cells\<close>, which
  zeroes exactly the members of the set (lemma \<open>clear_cells_any_order\<close> below: every
  order of the writes gives this board).
\<close>

definition scan_cell ::
  "GameGrid \<Rightarrow> int \<Rightarrow> int \<Rightarrow> (int \<times> int) set \<times> (int \<times> int) set \<times> int \<Rightarrow>
   (int \<times> int) set \<times> (int \<times> int) set \<times> int" where
  "scan_cell g y x st =
     (case st of (visited, to_clear, groups_cleared) \<Rightarrow>
        if (x, y) \<notin> visited \<and> cell_at g x y \<noteq> 0 then
          (let color = cell_at g x y;
               (connected, visited) = find_connected_puyos g x y color visited
           in if int (card connected) \<ge> 4
              then (visited, to_clear \<union> connected, groups_cleared + 1)
              else (visited, to_clear, groups_cleared))
        else (visited, to_clear, groups_cleared))"

definition clear_cells :: "GameGrid \<Rightarrow> (int \<times> int) set \<Rightarrow> GameGrid" where
  "clear_cells g to_clear =
     g\<lparr>grid :=
         map (\<lambda>(y, row). map (\<lambda>(x, v). if (int x, int y) \<in> to_clear then 0 else v)
                                (enumerate 0 row))
             (enumerate 0 (grid g))\<rparr>"

definition scan_groups :: "GameGrid \<Rightarrow> (int \<times> int) set \<times> (int \<times> int) set \<times> int" where
  "scan_groups g =
     fold (\<lambda>y st. fold (scan_cell g y) (map int [0..<nat (width g)]) st)
          (map int [0..<nat (height g)]) ({}, {}, 0)"

text \<open>The result is (board after clearing, \<open>cleared_count\<close>, \<open>groups_cleared\<close>).\<close>

definition find_and_clear_groups :: "GameGrid \<Rightarrow> GameGrid \<times> int \<times> int" where
  "find_and_clear_groups g =
     (case scan_groups g of (visited, to_clear, groups_cleared) \<Rightarrow>
        let cleared_count = int (card to_clear)
        in (clear_cells g to_clear, cleared_count, groups_cleared))"

subsection \<open>Settling a landed pair\<close>

text \<open>
  The downward scan of \<open>place_current_pair\<close>:
  \<^verbatim>\<open>while final_y + 1 < height and grid[final_y + 1][pos.x] == 0: final_y += 1\<close>.
  The read is not guarded against a column out of range or a negative row, so it is
  modelled with Python's indexing: it may raise \<open>IndexError\<close>.
\<close>

function settle_scan :: "GameGrid \<Rightarrow> int \<Rightarrow> int \<Rightarrow> error + int" where
  "settle_scan g x final_y =
     (if final_y + 1 < height g then
        (case py_index (grid g) (final_y + 1) of
           Inl e \<Rightarrow> Inl e
         | Inr row \<Rightarrow>
             (case py_index row x of
                Inl e \<Rightarrow> Inl e
              | Inr v \<Rightarrow> if v = 0 then settle_scan g x (final_y + 1) else Inr final_y))
      else Inr final_y)"
  by pat_completeness auto
termination
  by (relation "measure (\<lambda>(g, x, final_y). nat (height g - final_y))") auto

declare settle_scan.simps [simp del]

definition settle_one :: "GameGrid \<Rightarrow> Position \<times> int \<Rightarrow> error + GameGrid" where
  "settle_one g pc =
     (case settle_scan g (pos_x (fst pc)) (pos_y (fst pc)) of
        Inl e \<Rightarrow> Inl e
      | Inr final_y \<Rightarrow> Inr (place_puyo g (pos_x (fst pc)) final_y (snd pc)))"

text \<open>The \<open>for pos, color in [...]\<close> loop of \<open>place_current_pair\<close>, over any list of
  (position, color) entries, in list order.\<close>

fun settle_all :: "GameGrid \<Rightarrow> (Position \<times> int) list \<Rightarrow> error + GameGrid" where
  "settle_all g [] = Inr g"
| "settle_all g (pc # rest) =
     (case settle_one g pc of Inl e \<Rightarrow> Inl e | Inr g' \<Rightarrow> settle_all g' rest)"

text \<open>\<open>place_current_pair\<close> on the board and the current pair: main first, then sub.\<close>

definition place_pair :: "GameGrid \<Rightarrow> PuyoPair \<Rightarrow> error + GameGrid" where
  "place_pair g pair =
     (case get_positions pair of
        Inl e \<Rightarrow> Inl e
      | Inr (main_pos, sub_pos) \<Rightarrow>
          settle_all g [(main_pos, main_color pair), (sub_pos, sub_color pair)])"

text \<open>The same loop with the two entries in the other order (sub first, then main); the
  source never runs it, it is the comparison object of the order-independence claim.\<close>

definition place_pair_sub_first :: "GameGrid \<Rightarrow> PuyoPair \<Rightarrow> error + GameGrid" where
  "place_pair_sub_first g pair =
     (case get_positions pair of
        Inl e \<Rightarrow> Inl e
      | Inr (main_pos, sub_pos) \<Rightarrow>
          settle_all g [(sub_pos, sub_color pair), (main_pos, main_color pair)])"

subsection \<open>Session state\<close>

text \<open>The fields of \<open>PuyoGame\<close> that are not handles of the windowing library. The field
  \<open>self.grid\<close> is called \<open>game_grid\<close> here, since \<open>grid\<close> already names the field of
  \<open>GameGrid\<close>.\<close>

record PuyoGame =
  game_grid :: GameGrid
  current_pair :: PuyoPair
  next_pair :: PuyoPair
  score :: int
  chain_count :: int
  game_over :: bool
  fall_timer :: int

text \<open>\<open>generate_new_pair\<close> draws two colors with \<open>random.randint(1, 5)\<close>. The two draws
  are the parameters \<open>color1\<close> and \<open>color2\<close>: the function is the code after the draws.\<close>

definition generate_new_pair :: "int \<Rightarrow> int \<Rightarrow> PuyoPair" where
  "generate_new_pair color1 color2 = PuyoPair_init color1 color2 spawn_x 0"

definition can_move_pair :: "PuyoGame \<Rightarrow> int \<Rightarrow> int \<Rightarrow> error + bool" where
  "can_move_pair st dx dy =
     (let test_pair = PuyoPair_init (main_color (current_pair st)) (sub_color (current_pair st))
                        (pos_x (main_puyo (current_pair st))) (pos_y (main_puyo (current_pair st)));
          test_pair = test_pair\<lparr>rotation_state := rotation_state (current_pair st)\<rparr>;
          test_pair = move test_pair dx dy
      in can_place_pair (game_grid st) test_pair)"

definition can_rotate_pair :: "PuyoGame \<Rightarrow> bool \<Rightarrow> error + bool" where
  "can_rotate_pair st clockwise =
     (let test_pair = PuyoPair_init (main_color (current_pair st)) (sub_color (current_pair st))
                        (pos_x (main_puyo (current_pair st))) (pos_y (main_puyo (current_pair st)));
          test_pair = test_pair\<lparr>rotation_state := rotation_state (current_pair st)\<rparr>;
          test_pair = (if clockwise then rotate_clockwise test_pair
                       else rotate_counter_clockwise test_pair)
      in can_place_pair (game_grid st) test_pair)"

definition place_current_pair :: "PuyoGame \<Rightarrow> error + PuyoGame" where
  "place_current_pair st =
     (case place_pair (game_grid st) (current_pair st) of
        Inl e \<Rightarrow> Inl e
      | Inr g' \<Rightarrow> Inr (st\<lparr>game_grid := g'\<rparr>))"

text \<open>\<open>spawn_new_pair\<close>, with the two draws of its \<open>generate_new_pair\<close> call as
  parameters.\<close>

definition spawn_new_pair :: "int \<Rightarrow> int \<Rightarrow> PuyoGame \<Rightarrow> error + PuyoGame" where
  "spawn_new_pair color1 color2 st =
     (let st = st\<lparr>current_pair := next_pair st\<rparr>;
          st = st\<lparr>next_pair := generate_new_pair color1 color2\<rparr>;
          st = st\<lparr>current_pair :=
                  (current_pair st)\<lparr>main_puyo := \<lparr>pos_x = GRID_WIDTH div 2 - 1, pos_y = 0\<rparr>\<rparr>\<rparr>;
          st = st\<lparr>current_pair := (current_pair st)\<lparr>rotation_state := 0\<rparr>\<rparr>
      in case can_place_pair (game_grid st) (current_pair st) of
           Inl e \<Rightarrow> Inl e
         | Inr ok \<Rightarrow> Inr (if \<not> ok then st\<lparr>game_over := True\<rparr> else st))"

text \<open>\<open>restart_game\<close>, with the four draws of its two \<open>generate_new_pair\<close> calls.\<close>

definition restart_game :: "int \<Rightarrow> int \<Rightarrow> int \<Rightarrow> int \<Rightarrow> PuyoGame \<Rightarrow> PuyoGame" where
  "restart_game c1 c2 c3 c4 st =
     st\<lparr>game_grid := GameGrid_init GRID_WIDTH GRID_HEIGHT,
        current_pair := generate_new_pair c1 c2,
        next_pair := generate_new_pair c3 c4,
        score := 0, chain_count := 0, game_over := False, fall_timer := 0\<rparr>"

subsection \<open>Chain resolution\<close>

text \<open>
  One pass of the \<open>while True\<close> loop of \<open>process_chains\<close>: gravity, then find-and-clear.
  The result is \<open>(False, st')\<close> when the pass takes the \<open>break\<close>, and \<open>(True, st')\<close> when
  it clears, counts the chain and scores. The calls that pace and redraw the screen
  (\<open>pygame.time.wait\<close>, \<open>draw\<close>, \<open>flip\<close>) do not touch the session state and are left
  out.
\<close>

definition chain_pass :: "PuyoGame \<Rightarrow> bool \<times> PuyoGame" where
  "chain_pass st =
     (case find_and_clear_groups (apply_gravity (game_grid st)) of
        (g, cleared_count, groups_cleared) \<Rightarrow>
          if cleared_count = 0 then (False, st\<lparr>game_grid := g\<rparr>)
          else
            (let st = st\<lparr>game_grid := g\<rparr>;
                 st = st\<lparr>chain_count := chain_count st + 1\<rparr>;
                 base_score = cleared_count * 10;
                 chain_bonus = max 1 (chain_count st * 2);
                 group_bonus = groups_cleared
             in (True, st\<lparr>score := score st + base_score * chain_bonus * group_bonus\<rparr>)))"

text \<open>The loop may in principle run forever, so it returns an option: \<open>None\<close> is
  non-termination.\<close>

partial_function (option) process_chains_loop :: "PuyoGame \<Rightarrow> PuyoGame option" where
  "process_chains_loop st =
     (case chain_pass st of
        (continue, st') \<Rightarrow> if continue then process_chains_loop st' else Some st')"

definition process_chains :: "PuyoGame \<Rightarrow> PuyoGame option" where
  "process_chains st = process_chains_loop (st\<lparr>chain_count := 0\<rparr>)"

text \<open>The state before pass number \<open>n + 1\<close> of one \<open>process_chains\<close> call, when the first
  \<open>n\<close> passes all cleared.\<close>

fun after_passes :: "nat \<Rightarrow> PuyoGame \<Rightarrow> PuyoGame" where
  "after_passes 0 st = st\<lparr>chain_count := 0\<rparr>"
| "after_passes (Suc n) st = snd (chain_pass (after_passes n st))"

fun passes_clear :: "nat \<Rightarrow> PuyoGame \<Rightarrow> bool" where
  "passes_clear 0 st = True"
| "passes_clear (Suc n) st = (passes_clear n st \<and> fst (chain_pass (after_passes n st)))"

subsection \<open>Input handling and the fall tick\<close>

datatype key = K_LEFT | K_RIGHT | K_DOWN | K_UP | K_z | K_x | K_c | K_r | K_OTHER

datatype event = KEYDOWN key | OTHER_EVENT

text \<open>The hard-drop loop \<open>while self.can_move_pair(0, 1): self.current_pair.move(0, 1)\<close>.\<close>

function hard_drop_loop :: "PuyoGame \<Rightarrow> error + PuyoGame" where
  "hard_drop_loop st =
     (case can_move_pair st 0 1 of
        Inl e \<Rightarrow> Inl e
      | Inr ok \<Rightarrow>
          if ok then hard_drop_loop (st\<lparr>current_pair := move (current_pair st) 0 1\<rparr>)
          else Inr st)"
  by pat_completeness auto
termination
proof (relation "measure (\<lambda>st. nat (height (game_grid st) - pos_y (main_puyo (current_pair st))))",
    goal_cases)
  case 1
  show ?case by simp
next
  case (2 st ok)
  then show ?case
    by (auto simp: can_move_pair_def can_place_pair_def get_positions_def PuyoPair_init_def
        move_def Let_def is_valid_position_def split: sum.splits prod.splits)
qed

declare hard_drop_loop.simps [simp del]

text \<open>The landing sequence \<open>place_current_pair(); process_chains(); spawn_new_pair()\<close>.
  The outer option is non-termination of the chain loop, the sum an \<open>IndexError\<close>.\<close>

definition land :: "int \<Rightarrow> int \<Rightarrow> PuyoGame \<Rightarrow> (error + PuyoGame) option" where
  "land color1 color2 st =
     (case place_current_pair st of
        Inl e \<Rightarrow> Some (Inl e)
      | Inr st1 \<Rightarrow>
          (case process_chains st1 of
             None \<Rightarrow> None
           | Some st2 \<Rightarrow> Some (spawn_new_pair color1 color2 st2)))"

text \<open>A guarded move or rotation: \<open>if self.can_move_pair(dx, dy): self.current_pair.move(dx, dy)\<close>
  and \<open>if self.can_rotate_pair(cw): self.current_pair.rotate_...()\<close>.\<close>

definition try_move :: "PuyoGame \<Rightarrow> int \<Rightarrow> int \<Rightarrow> error + PuyoGame" where
  "try_move st dx dy =
     (case can_move_pair st dx dy of
        Inl e \<Rightarrow> Inl e
      | Inr ok \<Rightarrow> Inr (if ok then st\<lparr>current_pair := move (current_pair st) dx dy\<rparr> else st))"

definition try_rotate :: "PuyoGame \<Rightarrow> bool \<Rightarrow> error + PuyoGame" where
  "try_rotate st clockwise =
     (case can_rotate_pair st clockwise of
        Inl e \<Rightarrow> Inl e
      | Inr ok \<Rightarrow>
          Inr (if ok then
                 st\<lparr>current_pair := (if clockwise then rotate_clockwise (current_pair st)
                                       else rotate_counter_clockwise (current_pair st))\<rparr>
               else st))"

text \<open>\<open>handle_input\<close>. The four colors are the draws of the \<open>generate_new_pair\<close> calls
  that the event may reach: \<open>c1, c2\<close> for a spawn, \<open>c1 .. c4\<close> for a restart.\<close>

definition handle_input ::
  "int \<Rightarrow> int \<Rightarrow> int \<Rightarrow> int \<Rightarrow> event \<Rightarrow> PuyoGame \<Rightarrow> (error + PuyoGame) option" where
  "handle_input c1 c2 c3 c4 ev st =
     (case ev of
        OTHER_EVENT \<Rightarrow> Some (Inr st)
      | KEYDOWN k \<Rightarrow>
          if \<not> game_over st then
            (case k of
               K_LEFT \<Rightarrow> Some (try_move st (- 1) 0)
             | K_RIGHT \<Rightarrow> Some (try_move st 1 0)
             | K_DOWN \<Rightarrow> Some (try_move st 0 1)
             | K_UP \<Rightarrow>
                 (case hard_drop_loop st of
                    Inl e \<Rightarrow> Some (Inl e)
                  | Inr st' \<Rightarrow> land c1 c2 st')
             | K_z \<Rightarrow> Some (try_rotate st True)
             | K_x \<Rightarrow> Some (try_rotate st True)
             | K_c \<Rightarrow> Some (try_rotate st False)
             | _ \<Rightarrow> Some (Inr st))
          else
            (case k of
               K_r \<Rightarrow> Some (Inr (restart_game c1 c2 c3 c4 st))
             | _ \<Rightarrow> Some (Inr st)))"

text \<open>\<open>update\<close>: \<open>fall_speed\<close> is the time between automatic fall steps, in ms;
  \<open>down_pressed\<close> is \<open>pygame.key.get_pressed()[K_DOWN]\<close>.\<close>

definition fall_speed :: int where
  "fall_speed = 500"

definition soft_drop_speed :: int where
  "soft_drop_speed = 50"

definition update :: "int \<Rightarrow> int \<Rightarrow> bool \<Rightarrow> int \<Rightarrow> PuyoGame \<Rightarrow> (error + PuyoGame) option" where
  "update c1 c2 down_pressed dt st =
     (if game_over st then Some (Inr st)
      else
        let current_fall_speed = (if down_pressed then soft_drop_speed else fall_speed);
            st = st\<lparr>fall_timer := fall_timer st + dt\<rparr>
        in if fall_timer st \<ge> current_fall_speed then
             (let st = st\<lparr>fall_timer := 0\<rparr>
              in case can_move_pair st 0 1 of
                   Inl e \<Rightarrow> Some (Inl e)
                 | Inr ok \<Rightarrow>
                     if ok then Some (Inr (st\<lparr>current_pair := move (current_pair st) 0 1\<rparr>))
                     else land c1 c2 st)
           else Some (Inr st))"

text \<open>
  Randomness as non-determinism: \<open>spawn_step st st'\<close> holds when \<open>st'\<close> is a state that
  \<open>spawn_new_pair()\<close> can leave behind from \<open>st\<close>, for some outcome of its two
  \<open>random.randint(1, 5)\<close> draws.
\<close>

inductive spawn_step :: "PuyoGame \<Rightarrow> PuyoGame \<Rightarrow> bool" where
  spawn_stepI:
    "1 \<le> color1 \<Longrightarrow> color1 \<le> 5 \<Longrightarrow> 1 \<le> color2 \<Longrightarrow> color2 \<le> 5 \<Longrightarrow>
     spawn_new_pair color1 color2 st = Inr st' \<Longrightarrow> spawn_step st st'"

section \<open>Notions used in the statements\<close>

text \<open>The outcome the specification gives for a proposed move or rotation: the
  hypothetical pair replaces the live one when it can be placed, and nothing changes
  otherwise.\<close>

definition commit_if_placeable :: "PuyoGame \<Rightarrow> PuyoPair \<Rightarrow> PuyoGame" where
  "commit_if_placeable st hypothetical =
     (if can_place_pair (game_grid st) hypothetical = Inr True
      then st\<lparr>current_pair := hypothetical\<rparr> else st)"

text \<open>When the scan raises: it reads at all (the row below exists) and the first row index
  or the column index is out of Python's index range.\<close>

definition scan_raises :: "GameGrid \<Rightarrow> int \<Rightarrow> int \<Rightarrow> bool" where
  "scan_raises g x y \<longleftrightarrow> y + 1 < height g \<and> (y + 1 < - height g \<or> x < - width g \<or> width g \<le> x)"

definition wrap :: "int \<Rightarrow> int \<Rightarrow> int" where
  "wrap n i = (if i < 0 then n + i else i)"

text \<open>What gravity makes of one column (listed top to bottom): the occupied cells in
  their order, below as many EMPTY cells as the column had. \<open>col_cells g x n\<close> lists
  the first \<open>n\<close> cells of column \<open>x\<close>.\<close>

definition compact :: "int list \<Rightarrow> int list" where
  "compact col =
     replicate (length col - length (filter (\<lambda>v. v \<noteq> 0) col)) 0 @ filter (\<lambda>v. v \<noteq> 0) col"

definition col_cells :: "GameGrid \<Rightarrow> int \<Rightarrow> nat \<Rightarrow> int list" where
  "col_cells g x n = map (\<lambda>j. cell_at g x (int j)) [0..<n]"

text \<open>
  Groups. Two cells are \<open>neighbours\<close> when they are next to each other in one of the four
  axis directions. \<open>linked g\<close> relates two occupied neighbour cells of the same color;
  the group of a cell is everything reachable from it through links, so the group of an
  occupied cell is its maximal 4-directionally-connected set of cells of its color. A cell
  is \<open>clearable\<close> when it is occupied and its group has at least four cells.
\<close>

definition neighbours :: "int \<times> int \<Rightarrow> int \<times> int \<Rightarrow> bool" where
  "neighbours p q \<longleftrightarrow>
     (fst q = fst p \<and> (snd q = snd p + 1 \<or> snd q = snd p - 1)) \<or>
     (snd q = snd p \<and> (fst q = fst p + 1 \<or> fst q = fst p - 1))"

definition linked :: "GameGrid \<Rightarrow> ((int \<times> int) \<times> (int \<times> int)) set" where
  "linked g =
     {(p, q). p \<in> occupied_cells g \<and> q \<in> occupied_cells g \<and> neighbours p q \<and>
              cell_at g (fst q) (snd q) = cell_at g (fst p) (snd p)}"

definition group_of :: "GameGrid \<Rightarrow> int \<times> int \<Rightarrow> (int \<times> int) set" where
  "group_of g p = (linked g)\<^sup>* `` {p}"

definition clearable :: "GameGrid \<Rightarrow> (int \<times> int) set" where
  "clearable g = {p \<in> occupied_cells g. 4 \<le> card (group_of g p)}"

text \<open>
  For the proofs about the flood fill: a cell is \<open>free\<close> when it is on the board, has color
  \<open>c\<close> and is not yet visited; \<open>reach g c V p\<close> is the set of cells that a path of free
  cells connects to \<open>p\<close>.
\<close>

definition free :: "GameGrid \<Rightarrow> int \<Rightarrow> (int \<times> int) set \<Rightarrow> int \<times> int \<Rightarrow> bool" where
  "free g c V p \<longleftrightarrow> in_bounds g (fst p) (snd p) \<and> cell_at g (fst p) (snd p) = c \<and> p \<notin> V"

inductive_set reach :: "GameGrid \<Rightarrow> int \<Rightarrow> (int \<times> int) set \<Rightarrow> int \<times> int \<Rightarrow> (int \<times> int) set"
  for g :: GameGrid and c :: int and V :: "(int \<times> int) set" and p :: "int \<times> int" where
  reach_start: "free g c V p \<Longrightarrow> p \<in> reach g c V p"
| reach_step: "q \<in> reach g c V p \<Longrightarrow> neighbours q r \<Longrightarrow> free g c V r \<Longrightarrow> r \<in> reach g c V p"

text \<open>The state of the scan after the cells in \<open>P\<close> have been the start cell.\<close>

definition scan_inv ::
  "GameGrid \<Rightarrow> (int \<times> int) set \<Rightarrow> (int \<times> int) set \<times> (int \<times> int) set \<times> int \<Rightarrow> bool" where
  "scan_inv g P st \<longleftrightarrow>
     (case st of (visited, to_clear, groups_cleared) \<Rightarrow>
        visited = {q. \<exists>p \<in> P \<inter> occupied_cells g. q \<in> group_of g p} \<and>
        to_clear = {q \<in> visited. 4 \<le> card (group_of g q)} \<and>
        groups_cleared = int (card (group_of g ` to_clear)))"

text \<open>The state after one pass of the chain loop.\<close>

definition pass_step :: "PuyoGame \<Rightarrow> PuyoGame" where
  "pass_step s = snd (chain_pass s)"

subsection \<open>Example boards, pairs and sessions\<close>

definition board :: "int list list \<Rightarrow> GameGrid" where
  "board rows = \<lparr>width = int (length (hd rows)), height = int (length rows), grid = rows\<rparr>"

definition demo_pair :: "int \<Rightarrow> int \<Rightarrow> int \<Rightarrow> PuyoPair" where
  "demo_pair x y r = (PuyoPair_init 1 2 x y)\<lparr>rotation_state := r\<rparr>"

definition demo_game :: "GameGrid \<Rightarrow> PuyoPair \<Rightarrow> PuyoGame" where
  "demo_game g p =
     \<lparr>game_grid = g, current_pair = p, next_pair = PuyoPair_init 3 4 2 0, score = 0,
      chain_count = 0, game_over = False, fall_timer = 0\<rparr>"

definition demo_board :: GameGrid where
  "demo_board = board [[0, 0, 0], [0, 0, 5]]"

definition blocked_board :: GameGrid where
  "blocked_board = board [[0, 0, 0, 4, 0, 0], [0, 0, 0, 4, 0, 0]]"

definition full_column_board :: GameGrid where
  "full_column_board = board [[0, 0, 0], [0, 3, 0], [0, 4, 0]]"

definition fresh_game :: PuyoGame where
  "fresh_game = demo_game (GameGrid_init 6 12) (demo_pair 2 0 0)"

definition spawned :: "int \<Rightarrow> int \<Rightarrow> PuyoGame" where
  "spawned color1 color2 =
     fresh_game\<lparr>current_pair := PuyoPair_init 3 4 2 0, next_pair := PuyoPair_init color1 color2 2 0\<rparr>"

definition open_board :: GameGrid where
  "open_board = board [[0, 0, 0], [0, 0, 0], [0, 0, 0]]"

definition floating_board :: GameGrid where
  "floating_board = board [[1, 2, 0], [0, 3, 0], [4, 0, 0]]"

definition two_groups_board :: GameGrid where
  "two_groups_board = board [[1, 0, 0, 2], [1, 0, 3, 2], [1, 1, 3, 2], [3, 4, 3, 2]]"

definition two_groups_game :: PuyoGame where
  "two_groups_game = demo_game two_groups_board (demo_pair 1 0 0)"

definition two_groups_cleared :: PuyoGame where
  "two_groups_cleared =
     two_groups_game\<lparr>game_grid := board [[0, 0, 0, 0], [0, 0, 3, 0], [0, 0, 3, 0], [3, 4, 3, 0]],
                     score := 320, chain_count := 1\<rparr>"

section \<open>Basic facts\<close>

lemma get_positions_valid:
  "rotation_state p = 0 \<Longrightarrow>
     get_positions p = Inr (main_puyo p, \<lparr>pos_x = pos_x (main_puyo p) + 1, pos_y = pos_y (main_puyo p)\<rparr>)"
  "rotation_state p = 1 \<Longrightarrow>
     get_positions p = Inr (main_puyo p, \<lparr>pos_x = pos_x (main_puyo p), pos_y = pos_y (main_puyo p) + 1\<rparr>)"
  "rotation_state p = 2 \<Longrightarrow>
     get_positions p = Inr (main_puyo p, \<lparr>pos_x = pos_x (main_puyo p) - 1, pos_y = pos_y (main_puyo p)\<rparr>)"
  "rotation_state p = 3 \<Longrightarrow>
     get_positions p = Inr (main_puyo p, \<lparr>pos_x = pos_x (main_puyo p), pos_y = pos_y (main_puyo p) - 1\<rparr>)"
  by (simp_all add: get_positions_def py_index_def offsets_def Position_add_def)

lemma cell_at_init:
  "0 \<le> x \<Longrightarrow> x < w \<Longrightarrow> 0 \<le> y \<Longrightarrow> y < h \<Longrightarrow> cell_at (GameGrid_init w h) x y = 0"
  by (simp add: cell_at_def GameGrid_init_def)

lemma wf_grid_init: "0 \<le> w \<Longrightarrow> 0 \<le> h \<Longrightarrow> wf_grid (GameGrid_init w h)"
  by (simp add: wf_grid_def GameGrid_init_def)

lemma occupied_cells_init: "occupied_cells (GameGrid_init w h) = {}"
  by (auto simp: occupied_cells_def in_bounds_def cell_at_def GameGrid_init_def)

lemma get_positions_cong:
  "main_puyo p = main_puyo q \<Longrightarrow> rotation_state p = rotation_state q \<Longrightarrow>
   get_positions p = get_positions q"
  by (auto simp: get_positions_def split: sum.splits)

lemma can_place_pair_cong:
  "main_puyo p = main_puyo q \<Longrightarrow> rotation_state p = rotation_state q \<Longrightarrow>
   can_place_pair g p = can_place_pair g q"
  by (simp add: can_place_pair_def get_positions_cong[of p q])

lemma can_move_pair_eq:
  "can_move_pair st dx dy = can_place_pair (game_grid st) (move (current_pair st) dx dy)"
  unfolding can_move_pair_def Let_def
  by (rule can_place_pair_cong) (simp_all add: move_def PuyoPair_init_def)

lemma can_rotate_pair_eq:
  "can_rotate_pair st cw =
     can_place_pair (game_grid st)
       (if cw then rotate_clockwise (current_pair st) else rotate_counter_clockwise (current_pair st))"
  unfolding can_rotate_pair_def Let_def
  by (rule can_place_pair_cong)
    (simp_all add: rotate_clockwise_def rotate_counter_clockwise_def PuyoPair_init_def)

lemma get_positions_ok:
  "0 \<le> rotation_state p \<Longrightarrow> rotation_state p < 4 \<Longrightarrow> \<exists>m s. get_positions p = Inr (m, s)"
  by (simp add: get_positions_def py_index_def offsets_def)

lemma can_place_pair_ok:
  "0 \<le> rotation_state p \<Longrightarrow> rotation_state p < 4 \<Longrightarrow> \<exists>b. can_place_pair g p = Inr b"
  using get_positions_ok[of p] by (auto simp: can_place_pair_def)

lemma try_move_eq:
  assumes "0 \<le> rotation_state (current_pair st)" "rotation_state (current_pair st) < 4"
  shows "try_move st dx dy = Inr (commit_if_placeable st (move (current_pair st) dx dy))"
proof -
  have "rotation_state (move (current_pair st) dx dy) = rotation_state (current_pair st)"
    by (simp add: move_def)
  then obtain b where "can_place_pair (game_grid st) (move (current_pair st) dx dy) = Inr b"
    using can_place_pair_ok[of "move (current_pair st) dx dy" "game_grid st"] assms by auto
  then show ?thesis
    by (simp add: try_move_def can_move_pair_eq commit_if_placeable_def)
qed

lemma try_rotate_eq:
  "try_rotate st cw =
     Inr (commit_if_placeable st
            (if cw then rotate_clockwise (current_pair st)
             else rotate_counter_clockwise (current_pair st)))"
proof -
  let ?p = "if cw then rotate_clockwise (current_pair st) else rotate_counter_clockwise (current_pair st)"
  have "0 \<le> rotation_state ?p \<and> rotation_state ?p < 4"
    by (simp add: rotate_clockwise_def rotate_counter_clockwise_def)
  then obtain b where "can_place_pair (game_grid st) ?p = Inr b"
    using can_place_pair_ok[of ?p "game_grid st"] by auto
  then show ?thesis
    by (auto simp: try_rotate_def can_rotate_pair_eq commit_if_placeable_def)
qed

subsection \<open>Cells, writes and the settle scan\<close>

lemma width_set_cell [simp]: "width (set_cell g x y v) = width g"
  and height_set_cell [simp]: "height (set_cell g x y v) = height g"
  by (simp_all add: set_cell_def)

lemma in_bounds_set_cell [simp]: "in_bounds (set_cell g x y v) = in_bounds g"
  by (simp add: in_bounds_def fun_eq_iff)

lemma wf_set_cell: "wf_grid g \<Longrightarrow> wf_grid (set_cell g x' y' v)"
proof -
  assume wf: "wf_grid g"
  have "\<And>row. row \<in> set ((grid g)[nat y' := (grid g ! nat y')[nat x' := v]]) \<Longrightarrow>
           int (length row) = width g"
  proof -
    fix row assume "row \<in> set ((grid g)[nat y' := (grid g ! nat y')[nat x' := v]])"
    then have "row \<in> insert ((grid g ! nat y')[nat x' := v]) (set (grid g))"
      using set_update_subset_insert by fastforce
    moreover have "nat y' < length (grid g) \<or> (grid g)[nat y' := (grid g ! nat y')[nat x' := v]] = grid g"
      by (cases "nat y' < length (grid g)") (simp_all add: list_update_beyond)
    ultimately show "int (length row) = width g"
      using wf \<open>row \<in> set ((grid g)[nat y' := (grid g ! nat y')[nat x' := v]])\<close>
      by (auto simp: wf_grid_def)
  qed
  then show ?thesis using wf by (simp add: wf_grid_def set_cell_def)
qed

lemma row_length: "wf_grid g \<Longrightarrow> 0 \<le> y \<Longrightarrow> y < height g \<Longrightarrow> int (length (grid g ! nat y)) = width g"
  by (auto simp: wf_grid_def)

lemma cell_at_set_cell:
  assumes "wf_grid g" "in_bounds g x y" "0 \<le> x'" "0 \<le> y'"
  shows "cell_at (set_cell g x y v) x' y' = (if x' = x \<and> y' = y then v else cell_at g x' y')"
proof -
  have ylen: "nat y < length (grid g)" using assms by (auto simp: wf_grid_def in_bounds_def)
  have xlen: "nat x < length (grid g ! nat y)"
    using row_length[of g y] assms by (auto simp: in_bounds_def)
  have ny: "nat y' = nat y \<longleftrightarrow> y' = y" using assms by (auto simp: in_bounds_def)
  have nx: "nat x' = nat x \<longleftrightarrow> x' = x" using assms by (auto simp: in_bounds_def)
  show ?thesis
    using ylen xlen ny nx by (auto simp: cell_at_def set_cell_def nth_list_update)
qed

lemma finite_occupied_cells [simp]: "finite (occupied_cells g)"
proof (rule finite_subset)
  show "occupied_cells g \<subseteq> {0..<width g} \<times> {0..<height g}"
    by (auto simp: occupied_cells_def in_bounds_def)
qed simp

lemma occupied_cells_set_cell:
  assumes "wf_grid g" "in_bounds g x y"
  shows "occupied_cells (set_cell g x y v) =
           (if v \<noteq> 0 then insert (x, y) (occupied_cells g) else occupied_cells g - {(x, y)})"
  using assms
  by (auto simp: occupied_cells_def cell_at_set_cell in_bounds_def split: if_splits)

lemma grid_eqI:
  assumes "wf_grid g" "wf_grid g'" "width g = width g'" "height g = height g'"
    and cells: "\<And>x y. in_bounds g x y \<Longrightarrow> cell_at g x y = cell_at g' x y"
  shows "g = (g' :: GameGrid)"
proof -
  have len: "length (grid g) = length (grid g')" using assms by (auto simp: wf_grid_def)
  have "grid g = grid g'"
  proof (rule nth_equalityI[OF len])
    fix i assume i: "i < length (grid g)"
    have l1: "int (length (grid g ! i)) = width g" using assms(1) i by (auto simp: wf_grid_def)
    have l2: "int (length (grid g' ! i)) = width g" using assms(2,3) i len by (auto simp: wf_grid_def)
    show "grid g ! i = grid g' ! i"
    proof (rule nth_equalityI)
      show "length (grid g ! i) = length (grid g' ! i)" using l1 l2 by simp
      fix j assume j: "j < length (grid g ! i)"
      have "int j < width g" using j l1 by linarith
      moreover have "int i < height g" using i assms(1) by (simp add: wf_grid_def)
      ultimately have "in_bounds g (int j) (int i)"
        by (simp add: in_bounds_def)
      from cells[OF this] show "grid g ! i ! j = grid g' ! i ! j" by (simp add: cell_at_def)
    qed
  qed
  then show ?thesis using assms(3,4) by (cases g; cases g') simp
qed

lemma py_index_row:
  "wf_grid g \<Longrightarrow> 0 \<le> y \<Longrightarrow> y < height g \<Longrightarrow> py_index (grid g) y = Inr (grid g ! nat y)"
  by (auto simp: py_index_def wf_grid_def)

lemma py_index_cell:
  "wf_grid g \<Longrightarrow> in_bounds g x y \<Longrightarrow> py_index (grid g ! nat y) x = Inr (cell_at g x y)"
  using row_length[of g y] by (auto simp: py_index_def in_bounds_def cell_at_def)

lemma settle_scan_in_range:
  assumes "wf_grid g" "0 \<le> x" "x < width g" "- 1 \<le> y"
  shows "\<exists>r. settle_scan g x y = Inr r \<and> y \<le> r \<and> (r = y \<or> r < height g) \<and>
             (\<forall>k. y < k \<and> k \<le> r \<longrightarrow> cell_at g x k = 0) \<and>
             (r + 1 < height g \<longrightarrow> cell_at g x (r + 1) \<noteq> 0)"
  using assms
proof (induction g x y rule: settle_scan.induct)
  case (1 g x y)
  show ?case
  proof (cases "y + 1 < height g")
    case False
    then show ?thesis by (subst settle_scan.simps) auto
  next
    case True
    have ib: "in_bounds g x (y + 1)" using True 1(2-) by (auto simp: in_bounds_def)
    have r1: "py_index (grid g) (y + 1) = Inr (grid g ! nat (y + 1))"
      using py_index_row[of g "y + 1"] True 1(2-) by auto
    have r2: "py_index (grid g ! nat (y + 1)) x = Inr (cell_at g x (y + 1))"
      using py_index_cell[OF \<open>wf_grid g\<close> ib] .
    show ?thesis
    proof (cases "cell_at g x (y + 1) = 0")
      case False
      then show ?thesis using True r1 r2 by (subst settle_scan.simps) auto
    next
      case z: True
      from "1.IH"[OF True r1 r2 z] 1(2-)
      obtain r where r: "settle_scan g x (y + 1) = Inr r" "y + 1 \<le> r" "r = y + 1 \<or> r < height g"
        "\<forall>k. y + 1 < k \<and> k \<le> r \<longrightarrow> cell_at g x k = 0"
        "r + 1 < height g \<longrightarrow> cell_at g x (r + 1) \<noteq> 0"
        by auto
      have eq: "settle_scan g x y = Inr r"
        using True r1 r2 z r(1) by (subst settle_scan.simps) auto
      have "\<forall>k. y < k \<and> k \<le> r \<longrightarrow> cell_at g x k = 0"
      proof (intro allI impI)
        fix k assume "y < k \<and> k \<le> r"
        then show "cell_at g x k = 0" using z r(4) by (cases "k = y + 1") auto
      qed
      then show ?thesis using eq r True by auto
    qed
  qed
qed

lemma occupied_set_cell_new:
  assumes "wf_grid g" "in_bounds g x y" "v \<noteq> 0"
  shows "occupied (set_cell g x y v) = (if cell_at g x y = 0 then occupied g + 1 else occupied g)"
proof -
  have "(x, y) \<in> occupied_cells g \<longleftrightarrow> cell_at g x y \<noteq> 0"
    using assms(2) by (simp add: occupied_cells_def)
  then show ?thesis
    using assms by (auto simp: occupied_def occupied_cells_set_cell insert_absorb)
qed

lemma spawn_new_pair_total:
  "spawn_new_pair color1 color2 st =
     Inr (st\<lparr>current_pair := (next_pair st)\<lparr>main_puyo := \<lparr>pos_x = 2, pos_y = 0\<rparr>, rotation_state := 0\<rparr>,
             next_pair := generate_new_pair color1 color2,
             game_over := game_over st \<or>
               \<not> (is_valid_position (game_grid st) 2 0 \<and> is_valid_position (game_grid st) 3 0)\<rparr>)"
  by (auto simp: spawn_new_pair_def Let_def can_place_pair_def get_positions_valid GRID_WIDTH_def)

lemma spawn_step_fresh:
  assumes "1 \<le> c" "c \<le> 5" "1 \<le> d" "d \<le> 5"
  shows "spawn_step fresh_game (spawned c d)"
proof -
  have v: "is_valid_position (game_grid fresh_game) 2 0" "is_valid_position (game_grid fresh_game) 3 0"
    by (simp_all add: fresh_game_def demo_game_def is_valid_position_def GameGrid_init_def cell_at_def)
  have "spawn_new_pair c d fresh_game = Inr (spawned c d)"
    unfolding spawn_new_pair_total using v
    by (simp add: spawned_def fresh_game_def demo_game_def generate_new_pair_def spawn_x_def
        GRID_WIDTH_def PuyoPair_init_def)
  then show ?thesis using assms by (rule spawn_stepI[rotated 4])
qed

subsection \<open>The settle scan on arbitrary coordinates\<close>

lemma py_index_row_wrap:
  "wf_grid g \<Longrightarrow> - height g \<le> j \<Longrightarrow> j < height g \<Longrightarrow>
   py_index (grid g) j = Inr (grid g ! nat (wrap (height g) j))"
  by (auto simp: py_index_def wf_grid_def wrap_def)

lemma py_index_cell_wrap:
  assumes "wf_grid g" "- height g \<le> j" "j < height g" "- width g \<le> x" "x < width g"
  shows "py_index (grid g ! nat (wrap (height g) j)) x =
           Inr (cell_at g (wrap (width g) x) (wrap (height g) j))"
proof -
  have "0 \<le> wrap (height g) j" "wrap (height g) j < height g"
    using assms by (auto simp: wrap_def)
  from row_length[OF assms(1) this] show ?thesis
    using assms by (auto simp: py_index_def cell_at_def wrap_def)
qed

lemma py_index_row_raises:
  "wf_grid g \<Longrightarrow> j < - height g \<Longrightarrow> py_index (grid g) j = Inl IndexError"
  by (auto simp: py_index_def wf_grid_def)

lemma py_index_cell_raises:
  assumes "wf_grid g" "- height g \<le> j" "j < height g" "x < - width g \<or> width g \<le> x"
  shows "py_index (grid g ! nat (wrap (height g) j)) x = Inl IndexError"
proof -
  have "0 \<le> wrap (height g) j" "wrap (height g) j < height g"
    using assms by (auto simp: wrap_def)
  from row_length[OF assms(1) this] show ?thesis
    using assms by (auto simp: py_index_def)
qed

lemma settle_scan_raises:
  assumes "wf_grid g" "scan_raises g x y"
  shows "settle_scan g x y = Inl IndexError"
proof (cases "y + 1 < - height g")
  case True
  then show ?thesis
    using assms py_index_row_raises[OF assms(1) True]
    by (subst settle_scan.simps) (simp add: scan_raises_def)
next
  case False
  then have j: "- height g \<le> y + 1" "y + 1 < height g" "x < - width g \<or> width g \<le> x"
    using assms(2) by (auto simp: scan_raises_def)
  show ?thesis
    using py_index_row_wrap[OF assms(1) j(1,2)] py_index_cell_raises[OF assms(1) j] j
    by (subst settle_scan.simps) simp
qed

text \<open>Otherwise the scan returns, and its result depends on the board only through the
  column it reads.\<close>

lemma settle_scan_cong:
  assumes "wf_grid g" "wf_grid g'" "width g' = width g" "height g' = height g"
    and "\<not> scan_raises g x y"
    and "\<And>j. 0 \<le> j \<Longrightarrow> j < height g \<Longrightarrow>
           cell_at g' (wrap (width g) x) j = cell_at g (wrap (width g) x) j"
  shows "\<exists>r. settle_scan g x y = Inr r \<and> settle_scan g' x y = Inr r"
  using assms
proof (induction g x y rule: settle_scan.induct)
  case (1 g x y)
  show ?case
  proof (cases "y + 1 < height g")
    case False
    then show ?thesis
      using "1.prems"(4) by (simp add: settle_scan.simps[of g] settle_scan.simps[of g'])
  next
    case True
    then have j: "- height g \<le> y + 1" "y + 1 < height g" "- width g \<le> x" "x < width g"
      using "1.prems"(5) by (auto simp: scan_raises_def)
    have j': "- height g' \<le> y + 1" "y + 1 < height g'" "- width g' \<le> x" "x < width g'"
      using j "1.prems"(3,4) by simp_all
    let ?row = "grid g ! nat (wrap (height g) (y + 1))"
    let ?v = "cell_at g (wrap (width g) x) (wrap (height g) (y + 1))"
    have r1: "py_index (grid g) (y + 1) = Inr ?row"
      using py_index_row_wrap[OF "1.prems"(1) j(1,2)] .
    have r2: "py_index ?row x = Inr ?v"
      using py_index_cell_wrap[OF "1.prems"(1) j] .
    have w: "0 \<le> wrap (height g) (y + 1)" "wrap (height g) (y + 1) < height g"
      using j by (auto simp: wrap_def)
    have r1': "py_index (grid g') (y + 1) = Inr (grid g' ! nat (wrap (height g) (y + 1)))"
      using py_index_row_wrap[OF "1.prems"(2) j'(1,2)] "1.prems"(4) by simp
    have r2': "py_index (grid g' ! nat (wrap (height g) (y + 1))) x = Inr ?v"
      using py_index_cell_wrap[OF "1.prems"(2) j'] "1.prems"(3,4) "1.prems"(6)[OF w] by simp
    show ?thesis
    proof (cases "?v = 0")
      case False
      then show ?thesis
        using True r1 r2 r1' r2' "1.prems"(4)
        by (simp add: settle_scan.simps[of g x y] settle_scan.simps[of g' x y])
    next
      case z: True
      have nr: "\<not> scan_raises g x (y + 1)" using j by (auto simp: scan_raises_def)
      from "1.IH"[OF True r1 r2 z "1.prems"(1-4) nr "1.prems"(6)]
      obtain r where "settle_scan g x (y + 1) = Inr r" "settle_scan g' x (y + 1) = Inr r"
        by auto
      then show ?thesis
        using True r1 r2 r1' r2' z "1.prems"(4)
        by (simp add: settle_scan.simps[of g x y] settle_scan.simps[of g' x y])
    qed
  qed
qed

lemma width_place_puyo [simp]: "width (place_puyo g x y c) = width g"
  and height_place_puyo [simp]: "height (place_puyo g x y c) = height g"
  by (simp_all add: place_puyo_def)

lemma wf_place_puyo: "wf_grid g \<Longrightarrow> wf_grid (place_puyo g x y c)"
  by (simp add: place_puyo_def wf_set_cell)

lemma scan_raises_place_puyo [simp]:
  "scan_raises (place_puyo g x' y' c) x y = scan_raises g x y"
  by (simp add: scan_raises_def)

lemma cell_at_place_puyo_other_column:
  assumes "wf_grid g" "0 \<le> x" "x \<noteq> x'" "0 \<le> y"
  shows "cell_at (place_puyo g x' y' c) x y = cell_at g x y"
  using assms cell_at_set_cell[of g x' y' x y c]
  by (auto simp: place_puyo_def in_bounds_def)

lemma place_puyo_commute:
  assumes "wf_grid g" "x \<noteq> x'"
  shows "place_puyo (place_puyo g x y c) x' y' c' = place_puyo (place_puyo g x' y' c') x y c"
proof (rule grid_eqI)
  show "wf_grid (place_puyo (place_puyo g x y c) x' y' c')"
    "wf_grid (place_puyo (place_puyo g x' y' c') x y c)"
    using assms(1) by (simp_all add: wf_place_puyo)
  fix a b
  assume "in_bounds (place_puyo (place_puyo g x y c) x' y' c') a b"
  then have ab: "0 \<le> a" "0 \<le> b" by (simp_all add: in_bounds_def)
  have s1: "wf_grid (set_cell g x y c)" "wf_grid (set_cell g x' y' c')"
    using assms(1) by (simp_all add: wf_set_cell)
  show "cell_at (place_puyo (place_puyo g x y c) x' y' c') a b =
        cell_at (place_puyo (place_puyo g x' y' c') x y c) a b"
    using assms ab s1
    by (auto simp: place_puyo_def cell_at_set_cell in_bounds_def)
qed simp_all

lemma settle_one_cases:
  assumes "wf_grid g"
  shows "scan_raises g (pos_x (fst pc)) (pos_y (fst pc)) \<and> settle_one g pc = Inl IndexError \<or>
         \<not> scan_raises g (pos_x (fst pc)) (pos_y (fst pc)) \<and>
         (\<exists>r. settle_scan g (pos_x (fst pc)) (pos_y (fst pc)) = Inr r \<and>
              settle_one g pc = Inr (place_puyo g (pos_x (fst pc)) r (snd pc)))"
proof (cases "scan_raises g (pos_x (fst pc)) (pos_y (fst pc))")
  case True
  then show ?thesis using settle_scan_raises[OF assms True] by (simp add: settle_one_def)
next
  case False
  from settle_scan_cong[OF assms assms refl refl False]
  obtain r where "settle_scan g (pos_x (fst pc)) (pos_y (fst pc)) = Inr r" by auto
  then show ?thesis using False by (simp add: settle_one_def)
qed

lemma settle_one_after_other_column:
  assumes "wf_grid g" "pos_x (fst pc) \<noteq> x'"
    and "\<not> scan_raises g (pos_x (fst pc)) (pos_y (fst pc))"
    and "settle_scan g (pos_x (fst pc)) (pos_y (fst pc)) = Inr r"
  shows "settle_one (place_puyo g x' y' c') pc =
           Inr (place_puyo (place_puyo g x' y' c') (pos_x (fst pc)) r (snd pc))"
proof -
  let ?x = "pos_x (fst pc)" and ?y = "pos_y (fst pc)" and ?g1 = "place_puyo g x' y' c'"
  have wf1: "wf_grid ?g1" using assms(1) by (rule wf_place_puyo)
  show ?thesis
  proof (cases "0 \<le> ?x \<and> ?x < width g")
    case True
    then have wx: "wrap (width g) ?x = ?x" by (simp add: wrap_def)
    have "\<exists>r'. settle_scan g ?x ?y = Inr r' \<and> settle_scan ?g1 ?x ?y = Inr r'"
    proof (rule settle_scan_cong[OF assms(1) wf1 _ _ assms(3)])
      fix j :: int
      assume "0 \<le> j" "j < height g"
      then show "cell_at ?g1 (wrap (width g) ?x) j = cell_at g (wrap (width g) ?x) j"
        using cell_at_place_puyo_other_column[OF assms(1) _ assms(2), of j y' c'] True wx by simp
    qed simp_all
    then have "settle_scan ?g1 ?x ?y = Inr r" using assms(4) by auto
    then show ?thesis by (simp add: settle_one_def)
  next
    case False
    have "\<not> scan_raises ?g1 ?x ?y" using assms(3) by simp
    with settle_one_cases[OF wf1, of pc]
    obtain r' where "settle_one ?g1 pc = Inr (place_puyo ?g1 ?x r' (snd pc))" by auto
    then show ?thesis using False by (auto simp: place_puyo_def)
  qed
qed

lemma settle_all_two_columns:
  assumes "wf_grid g" "pos_x (fst a) \<noteq> pos_x (fst b)"
  shows "settle_all g [a, b] = settle_all g [b, a]"
proof -
  let ?xa = "pos_x (fst a)" and ?ya = "pos_y (fst a)"
  let ?xb = "pos_x (fst b)" and ?yb = "pos_y (fst b)"
  consider (ra) "scan_raises g ?xa ?ya" | (rb) "scan_raises g ?xb ?yb"
    | (ok) "\<not> scan_raises g ?xa ?ya" "\<not> scan_raises g ?xb ?yb"
    by blast
  then show ?thesis
  proof cases
    case ra
    have first: "settle_one g a = Inl IndexError"
      using settle_one_cases[OF assms(1), of a] ra by auto
    have "settle_all g [b, a] = Inl IndexError"
    proof (cases "settle_one g b")
      case (Inl e)
      then show ?thesis by (cases e) simp
    next
      case (Inr gb)
      then obtain r where gb: "gb = place_puyo g ?xb r (snd b)"
        using settle_one_cases[OF assms(1), of b] by auto
      have "wf_grid gb" "scan_raises gb ?xa ?ya"
        using gb assms(1) ra by (simp_all add: wf_place_puyo)
      then have "settle_one gb a = Inl IndexError"
        using settle_one_cases[of gb a] by auto
      then show ?thesis using Inr by simp
    qed
    then show ?thesis using first by simp
  next
    case rb
    have first: "settle_one g b = Inl IndexError"
      using settle_one_cases[OF assms(1), of b] rb by auto
    have "settle_all g [a, b] = Inl IndexError"
    proof (cases "settle_one g a")
      case (Inl e)
      then show ?thesis by (cases e) simp
    next
      case (Inr ga)
      then obtain r where ga: "ga = place_puyo g ?xa r (snd a)"
        using settle_one_cases[OF assms(1), of a] by auto
      have "wf_grid ga" "scan_raises ga ?xb ?yb"
        using ga assms(1) rb by (simp_all add: wf_place_puyo)
      then have "settle_one ga b = Inl IndexError"
        using settle_one_cases[of ga b] by auto
      then show ?thesis using Inr by simp
    qed
    then show ?thesis using first by simp
  next
    case ok
    from settle_one_cases[OF assms(1), of a] ok(1)
    obtain r where r: "settle_scan g ?xa ?ya = Inr r"
      "settle_one g a = Inr (place_puyo g ?xa r (snd a))" by auto
    from settle_one_cases[OF assms(1), of b] ok(2)
    obtain q where q: "settle_scan g ?xb ?yb = Inr q"
      "settle_one g b = Inr (place_puyo g ?xb q (snd b))" by auto
    have ab: "settle_all g [a, b] =
                Inr (place_puyo (place_puyo g ?xa r (snd a)) ?xb q (snd b))"
      using r(2) settle_one_after_other_column[OF assms(1) assms(2)[symmetric] ok(2) q(1)]
      by simp
    have ba: "settle_all g [b, a] =
                Inr (place_puyo (place_puyo g ?xb q (snd b)) ?xa r (snd a))"
      using q(2) settle_one_after_other_column[OF assms(1) assms(2) ok(1) r(1)]
      by simp
    show ?thesis
      unfolding ab ba using place_puyo_commute[OF assms(1) assms(2)] by simp
  qed
qed

subsection \<open>The loops of gravity\<close>

lemma column_col_cells: "wf_grid g \<Longrightarrow> column g x = col_cells g x (nat (height g))"
proof -
  assume wf: "wf_grid g"
  then have len: "length (grid g) = nat (height g)" by (auto simp: wf_grid_def)
  have "map (\<lambda>row. row ! nat x) (grid g) = map (\<lambda>j. grid g ! j ! nat x) [0..<length (grid g)]"
    by (rule nth_equalityI) simp_all
  then show ?thesis by (simp add: column_def col_cells_def cell_at_def len)
qed

lemma col_cells_Suc: "col_cells g x (Suc n) = col_cells g x n @ [cell_at g x (int n)]"
  by (simp add: col_cells_def)

lemma col_cells_cong:
  "(\<And>j. j < n \<Longrightarrow> cell_at g' x (int j) = cell_at g x (int j)) \<Longrightarrow> col_cells g' x n = col_cells g x n"
  by (simp add: col_cells_def)

lemma length_col_cells [simp]: "length (col_cells g x n) = n"
  by (simp add: col_cells_def)

lemma nth_col_cells [simp]: "j < n \<Longrightarrow> col_cells g x n ! j = cell_at g x (int j)"
  by (simp add: col_cells_def)

text \<open>The collecting loop: it appends the occupied cells of rows \<open>n - 1, ..., 0\<close> to
  \<open>puyos\<close> and zeroes these rows of column \<open>x\<close>.\<close>

lemma gravity_collect_fold:
  assumes "wf_grid g" "0 \<le> x" "x < width g" "int n \<le> height g"
  shows "fst (fold (gravity_collect x) (rev (map int [0..<n])) (ps, g)) =
           ps @ filter (\<lambda>v. v \<noteq> 0) (rev (col_cells g x n)) \<and>
         wf_grid (snd (fold (gravity_collect x) (rev (map int [0..<n])) (ps, g))) \<and>
         width (snd (fold (gravity_collect x) (rev (map int [0..<n])) (ps, g))) = width g \<and>
         height (snd (fold (gravity_collect x) (rev (map int [0..<n])) (ps, g))) = height g \<and>
         (\<forall>a b. 0 \<le> a \<and> 0 \<le> b \<longrightarrow>
            cell_at (snd (fold (gravity_collect x) (rev (map int [0..<n])) (ps, g))) a b =
              (if a = x \<and> b < int n then 0 else cell_at g a b))"
  using assms
proof (induction n arbitrary: ps g)
  case 0
  then show ?case by (simp add: col_cells_def)
next
  case (Suc n)
  let ?c = "cell_at g x (int n)"
  let ?ps1 = "if ?c \<noteq> 0 then ps @ [?c] else ps"
  let ?g1 = "set_cell g x (int n) 0"
  have ib: "in_bounds g x (int n)" using Suc.prems by (simp add: in_bounds_def)
  have step: "fold (gravity_collect x) (rev (map int [0..<Suc n])) (ps, g) =
              fold (gravity_collect x) (rev (map int [0..<n])) (?ps1, ?g1)"
    by (simp add: gravity_collect_def Let_def)
  have wf1: "wf_grid ?g1" using Suc.prems(1) by (rule wf_set_cell)
  have cells1: "\<And>a b. 0 \<le> a \<Longrightarrow> 0 \<le> b \<Longrightarrow>
      cell_at ?g1 a b = (if a = x \<and> b = int n then 0 else cell_at g a b)"
    using cell_at_set_cell[OF Suc.prems(1) ib] by simp
  have col1: "col_cells ?g1 x n = col_cells g x n"
    by (rule col_cells_cong) (simp add: cells1 Suc.prems(2))
  from Suc.IH[OF wf1, of ?ps1] Suc.prems
  have IH: "fst (fold (gravity_collect x) (rev (map int [0..<n])) (?ps1, ?g1)) =
           ?ps1 @ filter (\<lambda>v. v \<noteq> 0) (rev (col_cells ?g1 x n))"
    "wf_grid (snd (fold (gravity_collect x) (rev (map int [0..<n])) (?ps1, ?g1)))"
    "width (snd (fold (gravity_collect x) (rev (map int [0..<n])) (?ps1, ?g1))) = width g"
    "height (snd (fold (gravity_collect x) (rev (map int [0..<n])) (?ps1, ?g1))) = height g"
    "\<forall>a b. 0 \<le> a \<and> 0 \<le> b \<longrightarrow>
            cell_at (snd (fold (gravity_collect x) (rev (map int [0..<n])) (?ps1, ?g1))) a b =
              (if a = x \<and> b < int n then 0 else cell_at ?g1 a b)"
    by simp_all
  have "fst (fold (gravity_collect x) (rev (map int [0..<Suc n])) (ps, g)) =
           ps @ filter (\<lambda>v. v \<noteq> 0) (rev (col_cells g x (Suc n)))"
    unfolding step IH(1) col1 by (simp add: col_cells_Suc)
  moreover have "\<forall>a b. 0 \<le> a \<and> 0 \<le> b \<longrightarrow>
            cell_at (snd (fold (gravity_collect x) (rev (map int [0..<Suc n])) (ps, g))) a b =
              (if a = x \<and> b < int (Suc n) then 0 else cell_at g a b)"
    unfolding step using IH(5) cells1 by auto
  ultimately show ?case unfolding step using IH(2,3,4) by simp
qed

text \<open>The writing loop: entry \<open>i\<close> of \<open>puyos\<close> goes to row \<open>height - 1 - i\<close>.\<close>

lemma gravity_write_fold:
  assumes "wf_grid g" "0 \<le> x" "x < width g" "int (k + length ps) \<le> height g"
  shows "wf_grid (fold (gravity_write x) (enumerate k ps) g) \<and>
         width (fold (gravity_write x) (enumerate k ps) g) = width g \<and>
         height (fold (gravity_write x) (enumerate k ps) g) = height g \<and>
         (\<forall>a b. 0 \<le> a \<and> 0 \<le> b \<longrightarrow>
            cell_at (fold (gravity_write x) (enumerate k ps) g) a b =
              (if a = x \<and> int k \<le> height g - 1 - b \<and> height g - 1 - b < int (k + length ps)
               then ps ! (nat (height g - 1 - b) - k) else cell_at g a b))"
  using assms
proof (induction ps arbitrary: k g)
  case Nil
  then show ?case by auto
next
  case (Cons p ps)
  let ?g1 = "set_cell g x (height g - 1 - int k) p"
  have ib: "in_bounds g x (height g - 1 - int k)" using Cons.prems by (simp add: in_bounds_def)
  have step: "fold (gravity_write x) (enumerate k (p # ps)) g =
              fold (gravity_write x) (enumerate (Suc k) ps) ?g1"
    by (simp add: gravity_write_def)
  have wf1: "wf_grid ?g1" using Cons.prems(1) by (rule wf_set_cell)
  have cells1: "\<And>a b. 0 \<le> a \<Longrightarrow> 0 \<le> b \<Longrightarrow>
      cell_at ?g1 a b = (if a = x \<and> b = height g - 1 - int k then p else cell_at g a b)"
    using cell_at_set_cell[OF Cons.prems(1) ib] by simp
  from Cons.IH[OF wf1, of "Suc k"] Cons.prems
  have IH: "wf_grid (fold (gravity_write x) (enumerate (Suc k) ps) ?g1)"
    "width (fold (gravity_write x) (enumerate (Suc k) ps) ?g1) = width g"
    "height (fold (gravity_write x) (enumerate (Suc k) ps) ?g1) = height g"
    "\<forall>a b. 0 \<le> a \<and> 0 \<le> b \<longrightarrow>
            cell_at (fold (gravity_write x) (enumerate (Suc k) ps) ?g1) a b =
              (if a = x \<and> int (Suc k) \<le> height g - 1 - b \<and> height g - 1 - b < int (Suc k + length ps)
               then ps ! (nat (height g - 1 - b) - Suc k) else cell_at ?g1 a b)"
    by simp_all
  have "\<forall>a b. 0 \<le> a \<and> 0 \<le> b \<longrightarrow>
            cell_at (fold (gravity_write x) (enumerate k (p # ps)) g) a b =
              (if a = x \<and> int k \<le> height g - 1 - b \<and> height g - 1 - b < int (k + length (p # ps))
               then (p # ps) ! (nat (height g - 1 - b) - k) else cell_at g a b)"
  proof (intro allI impI)
    fix a b :: int assume ab: "0 \<le> a \<and> 0 \<le> b"
    show "cell_at (fold (gravity_write x) (enumerate k (p # ps)) g) a b =
              (if a = x \<and> int k \<le> height g - 1 - b \<and> height g - 1 - b < int (k + length (p # ps))
               then (p # ps) ! (nat (height g - 1 - b) - k) else cell_at g a b)"
    proof (cases "a = x \<and> b = height g - 1 - int k")
      case True
      then show ?thesis unfolding step using IH(4) cells1 ab by simp
    next
      case False
      show ?thesis
      proof (cases "a = x \<and> int (Suc k) \<le> height g - 1 - b \<and> height g - 1 - b < int (Suc k + length ps)")
        case True
        then have "nat (height g - 1 - b) - k = Suc (nat (height g - 1 - b) - Suc k)" by linarith
        then show ?thesis unfolding step using IH(4) ab True by simp
      next
        case F2: False
        then show ?thesis unfolding step using IH(4) cells1 ab False by auto
      qed
    qed
  qed
  then show ?case unfolding step using IH(1,2,3) by simp
qed

lemma nth_compact:
  assumes "b < length col"
  shows "compact col ! b =
           (if length col - 1 - b < length (filter (\<lambda>v. v \<noteq> 0) col)
            then rev (filter (\<lambda>v. v \<noteq> 0) col) ! (length col - 1 - b) else 0)"
proof -
  let ?F = "filter (\<lambda>v. v \<noteq> 0) col"
  have le: "length ?F \<le> length col" by simp
  show ?thesis
  proof (cases "length col - 1 - b < length ?F")
    case True
    then have ge: "length col - length ?F \<le> b" using assms by linarith
    have "compact col ! b = ?F ! (b - (length col - length ?F))"
      using ge by (simp add: compact_def nth_append)
    also have "\<dots> = rev ?F ! (length col - 1 - b)"
    proof -
      have "b - (length col - length ?F) = length ?F - Suc (length col - 1 - b)"
        using True assms le ge by linarith
      then show ?thesis using True by (simp add: rev_nth)
    qed
    finally show ?thesis using True by simp
  next
    case False
    then have "b < length col - length ?F" using assms by linarith
    then show ?thesis using False by (simp add: compact_def nth_append)
  qed
qed

lemma gravity_column_spec:
  assumes "wf_grid g" "0 \<le> x" "x < width g"
  shows "wf_grid (gravity_column x g) \<and> width (gravity_column x g) = width g \<and>
         height (gravity_column x g) = height g \<and>
         (\<forall>a b. 0 \<le> a \<and> 0 \<le> b \<and> b < height g \<longrightarrow>
            cell_at (gravity_column x g) a b =
              (if a = x then compact (col_cells g x (nat (height g))) ! nat b else cell_at g a b))"
proof -
  let ?H = "nat (height g)"
  let ?col = "col_cells g x ?H"
  let ?F = "filter (\<lambda>v. v \<noteq> 0) ?col"
  let ?pg = "fold (gravity_collect x) (rev (map int [0..<?H])) ([], g)"
  have h0: "0 \<le> height g" using assms(1) by (simp add: wf_grid_def)
  have c: "fst ?pg = rev ?F" "wf_grid (snd ?pg)" "width (snd ?pg) = width g"
    "height (snd ?pg) = height g"
    "\<forall>a b. 0 \<le> a \<and> 0 \<le> b \<longrightarrow>
        cell_at (snd ?pg) a b = (if a = x \<and> b < int ?H then 0 else cell_at g a b)"
    using gravity_collect_fold[OF assms, of ?H "[]"] h0 by (simp_all add: rev_filter)
  have lenF: "int (0 + length (rev ?F)) \<le> height (snd ?pg)"
  proof -
    have "length ?F \<le> length ?col" by (rule length_filter_le)
    then show ?thesis using c(4) h0 by simp
  qed
  have gc: "gravity_column x g = fold (gravity_write x) (enumerate 0 (rev ?F)) (snd ?pg)"
    by (simp add: gravity_column_def Let_def c(1))
  from gravity_write_fold[OF c(2) assms(2) _ lenF] assms(3) c(3)
  have w: "wf_grid (gravity_column x g)" "width (gravity_column x g) = width g"
    "height (gravity_column x g) = height g"
    "\<forall>a b. 0 \<le> a \<and> 0 \<le> b \<longrightarrow>
        cell_at (gravity_column x g) a b =
          (if a = x \<and> int 0 \<le> height g - 1 - b \<and> height g - 1 - b < int (0 + length (rev ?F))
           then rev ?F ! (nat (height g - 1 - b) - 0) else cell_at (snd ?pg) a b)"
    unfolding gc c(3) c(4) by simp_all
  have "\<forall>a b. 0 \<le> a \<and> 0 \<le> b \<and> b < height g \<longrightarrow>
            cell_at (gravity_column x g) a b =
              (if a = x then compact ?col ! nat b else cell_at g a b)"
  proof (intro allI impI)
    fix a b :: int assume ab: "0 \<le> a \<and> 0 \<le> b \<and> b < height g"
    then have nb: "nat b < length ?col" by simp
    have "nat (height g) - 1 - nat b = nat (height g - 1 - b)" using ab by linarith
    then have idx: "length ?col - 1 - nat b = nat (height g - 1 - b)" by simp
    show "cell_at (gravity_column x g) a b =
              (if a = x then compact ?col ! nat b else cell_at g a b)"
    proof (cases "a = x")
      case False
      then show ?thesis using w(4) c(5) ab by simp
    next
      case True
      have lt: "(height g - 1 - b < int (length ?F)) = (nat (height g - 1 - b) < length ?F)"
        using ab by linarith
      show ?thesis
        using True w(4) c(5) ab nth_compact[OF nb] idx lt by simp
    qed
  qed
  with w(1,2,3) show ?thesis by simp
qed

lemma length_compact [simp]: "length (compact col) = length col"
  by (simp add: compact_def)

lemma gravity_columns_fold:
  assumes "wf_grid g" "int n \<le> width g"
  shows "wf_grid (fold gravity_column (map int [0..<n]) g) \<and>
         width (fold gravity_column (map int [0..<n]) g) = width g \<and>
         height (fold gravity_column (map int [0..<n]) g) = height g \<and>
         (\<forall>a b. 0 \<le> a \<and> 0 \<le> b \<and> b < height g \<longrightarrow>
            cell_at (fold gravity_column (map int [0..<n]) g) a b =
              (if a < int n then compact (col_cells g a (nat (height g))) ! nat b
               else cell_at g a b))"
  using assms
proof (induction n)
  case 0
  then show ?case by simp
next
  case (Suc n)
  let ?g1 = "fold gravity_column (map int [0..<n]) g"
  have IH: "wf_grid ?g1" "width ?g1 = width g" "height ?g1 = height g"
    "\<forall>a b. 0 \<le> a \<and> 0 \<le> b \<and> b < height g \<longrightarrow>
        cell_at ?g1 a b = (if a < int n then compact (col_cells g a (nat (height g))) ! nat b
                           else cell_at g a b)"
    using Suc by simp_all
  have step: "fold gravity_column (map int [0..<Suc n]) g = gravity_column (int n) ?g1"
    by simp
  have nx: "0 \<le> int n" "int n < width ?g1" using Suc.prems(2) IH(2) by simp_all
  have col: "col_cells ?g1 (int n) (nat (height g)) = col_cells g (int n) (nat (height g))"
    by (rule col_cells_cong) (use IH(4) in simp)
  from gravity_column_spec[OF IH(1) nx] IH(2,3) col
  have G: "wf_grid (gravity_column (int n) ?g1)" "width (gravity_column (int n) ?g1) = width g"
    "height (gravity_column (int n) ?g1) = height g"
    "\<forall>a b. 0 \<le> a \<and> 0 \<le> b \<and> b < height g \<longrightarrow>
        cell_at (gravity_column (int n) ?g1) a b =
          (if a = int n then compact (col_cells g (int n) (nat (height g))) ! nat b
           else cell_at ?g1 a b)"
    by simp_all
  have "\<forall>a b. 0 \<le> a \<and> 0 \<le> b \<and> b < height g \<longrightarrow>
            cell_at (gravity_column (int n) ?g1) a b =
              (if a < int (Suc n) then compact (col_cells g a (nat (height g))) ! nat b
               else cell_at g a b)"
    using G(4) IH(4) by auto
  then show ?case unfolding step using G(1,2,3) by simp
qed

lemma apply_gravity_spec:
  assumes "wf_grid g"
  shows "wf_grid (apply_gravity g)" "width (apply_gravity g) = width g"
    "height (apply_gravity g) = height g"
    "0 \<le> x \<Longrightarrow> x < width g \<Longrightarrow> column (apply_gravity g) x = compact (column g x)"
proof -
  have w0: "int (nat (width g)) \<le> width g" using assms by (simp add: wf_grid_def)
  from gravity_columns_fold[OF assms w0]
  have G: "wf_grid (apply_gravity g)" "width (apply_gravity g) = width g"
    "height (apply_gravity g) = height g"
    "\<forall>a b. 0 \<le> a \<and> 0 \<le> b \<and> b < height g \<longrightarrow>
        cell_at (apply_gravity g) a b =
          (if a < int (nat (width g)) then compact (col_cells g a (nat (height g))) ! nat b
           else cell_at g a b)"
    by (simp_all add: apply_gravity_def)
  show "wf_grid (apply_gravity g)" "width (apply_gravity g) = width g"
    "height (apply_gravity g) = height g"
    by (rule G)+
  assume x: "0 \<le> x" "x < width g"
  have "col_cells (apply_gravity g) x (nat (height g)) = compact (col_cells g x (nat (height g)))"
  proof (rule nth_equalityI)
    show "length (col_cells (apply_gravity g) x (nat (height g))) =
          length (compact (col_cells g x (nat (height g))))" by simp
    fix j assume "j < length (col_cells (apply_gravity g) x (nat (height g)))"
    then have j: "j < nat (height g)" by simp
    then show "col_cells (apply_gravity g) x (nat (height g)) ! j =
               compact (col_cells g x (nat (height g))) ! j"
      using G(4) x by simp
  qed
  then show "column (apply_gravity g) x = compact (column g x)"
    using column_col_cells[OF G(1), of x] column_col_cells[OF assms, of x] G(3) by simp
qed

lemma filter_compact: "filter (\<lambda>v. v \<noteq> 0) (compact col) = filter (\<lambda>v. v \<noteq> 0) col"
  by (simp add: compact_def)

lemma filter_zero_replicate: "filter (\<lambda>v. \<not> v \<noteq> 0) col = replicate (length (filter (\<lambda>v. \<not> v \<noteq> 0) col)) (0::int)"
  by (induction col) auto

lemma mset_compact: "mset (compact col) = mset col"
proof -
  have len: "length col - length (filter (\<lambda>v. v \<noteq> 0) col) = length (filter (\<lambda>v. \<not> v \<noteq> 0) col)"
    using sum_length_filter_compl[of "\<lambda>v. v \<noteq> 0" col] by linarith
  have "mset (compact col) = mset (filter (\<lambda>v. \<not> v \<noteq> 0) col) + mset (filter (\<lambda>v. v \<noteq> 0) col)"
    unfolding compact_def len using filter_zero_replicate[of col] by (metis mset_append)
  also have "\<dots> = mset col"
    using multiset_partition[of "mset col" "\<lambda>v. v \<noteq> 0"] by (simp add: add.commute)
  finally show ?thesis .
qed

lemma compact_no_gap:
  assumes "i < j" "j < length col" "compact col ! i \<noteq> 0"
  shows "compact col ! j \<noteq> 0"
proof -
  let ?F = "filter (\<lambda>v. v \<noteq> 0) col"
  let ?z = "length col - length ?F"
  have i: "\<not> i < ?z"
  proof
    assume "i < ?z"
    then have "compact col ! i = 0" by (simp add: compact_def nth_append)
    with assms(3) show False by simp
  qed
  then have j: "\<not> j < ?z" "j - ?z < length ?F" using assms(1,2) by auto
  then have "compact col ! j = ?F ! (j - ?z)" by (simp add: compact_def nth_append)
  moreover have "?F ! (j - ?z) \<in> set ?F" using j(2) by (rule nth_mem)
  ultimately show ?thesis by simp
qed

subsection \<open>The flood fill computes reachability\<close>

lemma reach_free: "q \<in> reach g c V p \<Longrightarrow> free g c V q"
  by (induction rule: reach.induct) auto

lemma reach_start_free: "q \<in> reach g c V p \<Longrightarrow> free g c V p"
  by (induction rule: reach.induct) auto

lemma reach_empty: "\<not> free g c V p \<Longrightarrow> reach g c V p = {}"
  using reach_start_free by blast

lemma reach_closed:
  assumes "p \<in> S" and "\<And>q r. q \<in> S \<Longrightarrow> neighbours q r \<Longrightarrow> free g c V r \<Longrightarrow> r \<in> S"
  shows "reach g c V p \<subseteq> S"
proof
  fix q assume "q \<in> reach g c V p"
  then show "q \<in> S" by (induction rule: reach.induct) (use assms in auto)
qed

lemma reach_via_neighbour:
  assumes "q \<in> reach g c V' n" "V \<subseteq> V'" "neighbours p n" "free g c V p"
  shows "q \<in> reach g c V p"
  using assms(1)
proof (induction rule: reach.induct)
  case reach_start
  then have "free g c V n" using assms(2) by (auto simp: free_def)
  then show ?case using reach.reach_step[OF reach.reach_start[OF assms(4)] assms(3)] by simp
next
  case (reach_step q r)
  then have "free g c V r" using assms(2) by (auto simp: free_def)
  then show ?case using reach_step reach.reach_step by blast
qed

lemma fcp_skip:
  "\<not> free g c V (x, y) \<Longrightarrow> find_connected_puyos g x y c V = ({}, V)"
  by (subst find_connected_puyos.simps) (auto simp: free_def in_bounds_def)

lemma fcp_unfold:
  assumes "free g c V (x, y)"
    and "find_connected_puyos g x (y + 1) c (insert (x, y) V) = (c1, v1)"
    and "find_connected_puyos g x (y - 1) c v1 = (c2, v2)"
    and "find_connected_puyos g (x + 1) y c v2 = (c3, v3)"
    and "find_connected_puyos g (x - 1) y c v3 = (c4, v4)"
  shows "find_connected_puyos g x y c V = ({(x, y)} \<union> c1 \<union> c2 \<union> c3 \<union> c4, v4)"
  using assms by (subst find_connected_puyos.simps) (auto simp: free_def in_bounds_def)

lemma neighbours_cases:
  "neighbours (x, y) r \<longleftrightarrow> r = (x, y + 1) \<or> r = (x, y - 1) \<or> r = (x + 1, y) \<or> r = (x - 1, y)"
  by (cases r) (auto simp: neighbours_def)

lemma fcp_reach:
  "find_connected_puyos g x y c V = (reach g c V (x, y), V \<union> reach g c V (x, y))"
proof (induction g x y c V rule: find_connected_puyos.induct)
  case (1 g x y c V)
  show ?case
  proof (cases "free g c V (x, y)")
    case False
    then show ?thesis by (simp add: fcp_skip reach_empty)
  next
    case True
    then have nv: "(x, y) \<notin> V"
      and cond: "\<not> (x < 0 \<or> width g \<le> x \<or> y < 0 \<or> height g \<le> y \<or> cell_at g x y \<noteq> c)"
      by (auto simp: free_def in_bounds_def)
    let ?p = "(x, y)"
    let ?v0 = "insert ?p V"
    let ?c1 = "reach g c ?v0 (x, y + 1)"
    let ?v1 = "?v0 \<union> ?c1"
    let ?c2 = "reach g c ?v1 (x, y - 1)"
    let ?v2 = "?v1 \<union> ?c2"
    let ?c3 = "reach g c ?v2 (x + 1, y)"
    let ?v3 = "?v2 \<union> ?c3"
    let ?c4 = "reach g c ?v3 (x - 1, y)"
    let ?v4 = "?v3 \<union> ?c4"
    have r1: "find_connected_puyos g x (y + 1) c ?v0 = (?c1, ?v1)"
      using "1.IH"(1)[OF nv cond refl refl] .
    have r2: "find_connected_puyos g x (y - 1) c ?v1 = (?c2, ?v2)"
      using "1.IH"(2)[OF nv cond refl refl refl r1[symmetric] refl] .
    have r3: "find_connected_puyos g (x + 1) y c ?v2 = (?c3, ?v3)"
      using "1.IH"(3)[OF nv cond refl refl refl r1[symmetric] refl refl r2[symmetric] refl] .
    have r4: "find_connected_puyos g (x - 1) y c ?v3 = (?c4, ?v4)"
      using "1.IH"(4)[OF nv cond refl refl refl r1[symmetric] refl refl r2[symmetric] refl refl
          r3[symmetric] refl] .
    let ?S = "{?p} \<union> ?c1 \<union> ?c2 \<union> ?c3 \<union> ?c4"
    have eq: "find_connected_puyos g x y c V = (?S, ?v4)"
      by (rule fcp_unfold[OF True r1 r2 r3 r4])
    have sub1: "?S \<subseteq> reach g c V ?p"
    proof -
      have "?c1 \<subseteq> reach g c V ?p"
        using reach_via_neighbour[of _ g c ?v0 "(x, y + 1)" V ?p] True
        by (auto simp: neighbours_cases)
      moreover have "?c2 \<subseteq> reach g c V ?p"
        using reach_via_neighbour[of _ g c ?v1 "(x, y - 1)" V ?p] True
        by (auto simp: neighbours_cases)
      moreover have "?c3 \<subseteq> reach g c V ?p"
        using reach_via_neighbour[of _ g c ?v2 "(x + 1, y)" V ?p] True
        by (auto simp: neighbours_cases)
      moreover have "?c4 \<subseteq> reach g c V ?p"
        using reach_via_neighbour[of _ g c ?v3 "(x - 1, y)" V ?p] True
        by (auto simp: neighbours_cases)
      moreover have "?p \<in> reach g c V ?p" using True by (rule reach.reach_start)
      ultimately show ?thesis by blast
    qed
    have sub2: "reach g c V ?p \<subseteq> ?S"
    proof (rule reach_closed)
      show "?p \<in> ?S" by simp
    next
      fix q r assume q: "q \<in> ?S" and n: "neighbours q r" and f: "free g c V r"
      show "r \<in> ?S"
      proof (cases "r \<in> ?v4")
        case True
        then show ?thesis using f by (auto simp: free_def)
      next
        case False
        then have fr: "free g c ?v0 r" "free g c ?v1 r" "free g c ?v2 r" "free g c ?v3 r"
          using f by (auto simp: free_def)
        from q consider "q = ?p" | "q \<in> ?c1" | "q \<in> ?c2" | "q \<in> ?c3" | "q \<in> ?c4" by blast
        then have "r \<in> ?c1 \<union> ?c2 \<union> ?c3 \<union> ?c4"
        proof cases
          case 1
          then have "r = (x, y + 1) \<or> r = (x, y - 1) \<or> r = (x + 1, y) \<or> r = (x - 1, y)"
            using n by (simp add: neighbours_cases)
          then show ?thesis using fr reach.reach_start by blast
        next
          case 2
          then show ?thesis using reach.reach_step[OF _ n fr(1)] by blast
        next
          case 3
          then show ?thesis using reach.reach_step[OF _ n fr(2)] by blast
        next
          case 4
          then show ?thesis using reach.reach_step[OF _ n fr(3)] by blast
        next
          case 5
          then show ?thesis using reach.reach_step[OF _ n fr(4)] by blast
        qed
        then show ?thesis by blast
      qed
    qed
    have "reach g c V ?p = ?S" using sub1 sub2 by blast
    then show ?thesis unfolding eq by auto
  qed
qed

subsection \<open>Groups and the scan over all start cells\<close>

lemma neighbours_sym: "neighbours p q \<Longrightarrow> neighbours q p"
  by (auto simp: neighbours_def)

lemma linked_sym: "(p, q) \<in> linked g \<Longrightarrow> (q, p) \<in> linked g"
  by (auto simp: linked_def neighbours_sym)

lemma linked_rtrancl_sym: "(p, q) \<in> (linked g)\<^sup>* \<Longrightarrow> (q, p) \<in> (linked g)\<^sup>*"
  by (induction rule: rtrancl_induct) (auto intro: converse_rtrancl_into_rtrancl linked_sym)

lemma group_of_self [simp]: "p \<in> group_of g p"
  by (simp add: group_of_def)

lemma group_of_eq: "q \<in> group_of g p \<Longrightarrow> group_of g q = group_of g p"
proof -
  assume "q \<in> group_of g p"
  then have pq: "(p, q) \<in> (linked g)\<^sup>*" by (simp add: group_of_def)
  then have qp: "(q, p) \<in> (linked g)\<^sup>*" by (rule linked_rtrancl_sym)
  show ?thesis
    unfolding group_of_def using pq qp by (auto intro: rtrancl_trans)
qed

lemma group_of_occupied:
  assumes "p \<in> occupied_cells g" "q \<in> group_of g p"
  shows "q \<in> occupied_cells g \<and> cell_at g (fst q) (snd q) = cell_at g (fst p) (snd p)"
proof -
  from assms(2) have "(p, q) \<in> (linked g)\<^sup>*" by (simp add: group_of_def)
  then show ?thesis
    by (induction rule: rtrancl_induct) (use assms(1) in \<open>auto simp: linked_def\<close>)
qed

lemma finite_group_of: "p \<in> occupied_cells g \<Longrightarrow> finite (group_of g p)"
  using group_of_occupied[of p g] finite_subset[OF _ finite_occupied_cells[of g]] by blast

lemma reach_group_of:
  assumes "p \<in> occupied_cells g" "V \<inter> group_of g p = {}"
  shows "reach g (cell_at g (fst p) (snd p)) V p = group_of g p"
proof -
  let ?c = "cell_at g (fst p) (snd p)"
  have c0: "?c \<noteq> 0" and ibp: "in_bounds g (fst p) (snd p)"
    using assms(1) by (auto simp: occupied_cells_def)
  have "q \<in> group_of g p" if "q \<in> reach g ?c V p" for q
    using that
  proof (induction rule: reach.induct)
    case reach_start
    then show ?case by simp
  next
    case (reach_step q r)
    have fq: "free g ?c V q" using reach_step.hyps(1) by (rule reach_free)
    have "(q, r) \<in> linked g"
      using fq reach_step.hyps(2,3) c0
      by (cases q; cases r) (auto simp: linked_def free_def occupied_cells_def)
    then show ?case using reach_step.IH by (auto simp: group_of_def intro: rtrancl_into_rtrancl)
  qed
  moreover have "q \<in> reach g ?c V p" if "q \<in> group_of g p" for q
  proof -
    from that have "(p, q) \<in> (linked g)\<^sup>*" by (simp add: group_of_def)
    then show ?thesis
    proof (induction rule: rtrancl_induct)
      case base
      have "p \<notin> V" using assms(2) by auto
      then have "free g ?c V p" using ibp by (simp add: free_def)
      then show ?case by (rule reach.reach_start)
    next
      case (step q r)
      have "r \<in> group_of g p"
        using step.hyps by (auto simp: group_of_def intro: rtrancl_into_rtrancl)
      then have "r \<notin> V" using assms(2) by auto
      moreover have "cell_at g (fst q) (snd q) = ?c" using reach_free[OF step.IH] by (simp add: free_def)
      ultimately have "free g ?c V r"
        using step.hyps(2) by (auto simp: free_def linked_def occupied_cells_def)
      moreover have "neighbours q r" using step.hyps(2) by (simp add: linked_def)
      ultimately show ?case using step.IH reach.reach_step by blast
    qed
  qed
  ultimately show ?thesis by blast
qed

lemma scan_inv_iff:
  "scan_inv g P (V, T, k) \<longleftrightarrow>
     (\<forall>q. q \<in> V \<longleftrightarrow> (\<exists>p \<in> P \<inter> occupied_cells g. q \<in> group_of g p)) \<and>
     (\<forall>q. q \<in> T \<longleftrightarrow> q \<in> V \<and> 4 \<le> card (group_of g q)) \<and>
     k = int (card (group_of g ` T))"
  unfolding scan_inv_def prod.case set_eq_iff mem_Collect_eq by (rule refl)

lemma scan_cell_skip:
  "\<not> ((x, y) \<notin> V \<and> cell_at g x y \<noteq> 0) \<Longrightarrow> scan_cell g y x (V, T, k) = (V, T, k)"
  by (auto simp: scan_cell_def)

lemma scan_cell_fill:
  assumes "(x, y) \<notin> V" "cell_at g x y \<noteq> 0"
    and "find_connected_puyos g x y (cell_at g x y) V = (G, V')"
  shows "scan_cell g y x (V, T, k) = (if 4 \<le> card G then (V', T \<union> G, k + 1) else (V', T, k))"
  using assms by (simp add: scan_cell_def)


lemma scan_cell_inv:
  assumes inv: "scan_inv g P st" and ib: "in_bounds g x y"
  shows "scan_inv g (insert (x, y) P) (scan_cell g y x st)"
proof -
  obtain V T k where st: "st = (V, T, k)" by (cases st)
  let ?p = "(x, y)"
  from inv have V: "\<And>q. q \<in> V \<longleftrightarrow> (\<exists>p \<in> P \<inter> occupied_cells g. q \<in> group_of g p)"
    and T: "\<And>q. q \<in> T \<longleftrightarrow> q \<in> V \<and> 4 \<le> card (group_of g q)"
    and k: "k = int (card (group_of g ` T))"
    unfolding st scan_inv_iff by blast+
  have closed: "r \<in> V" if "q \<in> V" "r \<in> group_of g q" for q r
  proof -
    from that(1) obtain p where p: "p \<in> P \<inter> occupied_cells g" "q \<in> group_of g p"
      using V by blast
    have "group_of g q = group_of g p" using p(2) by (rule group_of_eq)
    then have "r \<in> group_of g p" using that(2) by simp
    then show ?thesis using V p(1) by blast
  qed
  have Vocc: "q \<in> occupied_cells g" if "q \<in> V" for q
  proof -
    from that obtain p where p: "p \<in> P \<inter> occupied_cells g" "q \<in> group_of g p"
      using V by blast
    then show ?thesis using group_of_occupied[of p g q] by simp
  qed
  show ?thesis
  proof (cases "?p \<notin> V \<and> cell_at g x y \<noteq> 0")
    case False
    have same: "scan_cell g y x st = (V, T, k)" unfolding st using False by (rule scan_cell_skip)
    have V2: "q \<in> V \<longleftrightarrow> (\<exists>p \<in> insert ?p P \<inter> occupied_cells g. q \<in> group_of g p)" for q
    proof
      assume "q \<in> V"
      then show "\<exists>p \<in> insert ?p P \<inter> occupied_cells g. q \<in> group_of g p" using V by blast
    next
      assume "\<exists>p \<in> insert ?p P \<inter> occupied_cells g. q \<in> group_of g p"
      then obtain p where p: "p \<in> insert ?p P" "p \<in> occupied_cells g" "q \<in> group_of g p"
        by blast
      show "q \<in> V"
      proof (cases "p = ?p")
        case True
        then have "cell_at g x y \<noteq> 0" using p(2) by (simp add: occupied_cells_def)
        then have "?p \<in> V" using False by simp
        then show ?thesis using closed p(3) True by blast
      next
        case F: False
        then show ?thesis using V p by blast
      qed
    qed
    show ?thesis unfolding same scan_inv_iff
      by (intro conjI allI) (rule V2, rule T, rule k)
  next
    case True
    then have occ: "?p \<in> occupied_cells g" using ib by (simp add: occupied_cells_def)
    let ?G = "group_of g ?p"
    have disj: "V \<inter> ?G = {}"
    proof (rule ccontr)
      assume "V \<inter> ?G \<noteq> {}"
      then obtain q where q: "q \<in> V" "q \<in> ?G" by blast
      have "?p \<in> group_of g q" using group_of_eq[OF q(2)] by simp
      then have "?p \<in> V" using closed[OF q(1)] by blast
      with True show False by simp
    qed
    have "reach g (cell_at g (fst ?p) (snd ?p)) V ?p = ?G" using occ disj by (rule reach_group_of)
    then have fcp: "find_connected_puyos g x y (cell_at g x y) V = (?G, V \<union> ?G)"
      using fcp_reach[of g x y "cell_at g x y" V] by simp
    have sc: "scan_cell g y x st =
                (if 4 \<le> card ?G then (V \<union> ?G, T \<union> ?G, k + 1) else (V \<union> ?G, T, k))"
      unfolding st using True fcp by (intro scan_cell_fill) simp_all
    have V2: "q \<in> V \<union> ?G \<longleftrightarrow> (\<exists>p \<in> insert ?p P \<inter> occupied_cells g. q \<in> group_of g p)" for q
      using V[of q] occ by blast
    have Gsame: "group_of g q = ?G" if "q \<in> ?G" for q using that by (rule group_of_eq)
    show ?thesis
    proof (cases "4 \<le> card ?G")
      case big: True
      have T2: "q \<in> T \<union> ?G \<longleftrightarrow> q \<in> V \<union> ?G \<and> 4 \<le> card (group_of g q)" for q
      proof (cases "q \<in> ?G")
        case inG: True
        then have "group_of g q = ?G" by (rule Gsame)
        then have "4 \<le> card (group_of g q)" using big by simp
        then show ?thesis using inG by simp
      next
        case notG: False
        then show ?thesis using T[of q] by simp
      qed
      have finT: "finite T"
      proof (rule finite_subset)
        show "T \<subseteq> occupied_cells g" using T Vocc by blast
      qed simp
      have img: "group_of g ` (T \<union> ?G) = insert ?G (group_of g ` T)"
      proof -
        have "group_of g ` ?G = {?G}"
        proof (rule equalityI)
          show "group_of g ` ?G \<subseteq> {?G}"
          proof (rule image_subsetI)
            fix q assume "q \<in> ?G"
            then have "group_of g q = ?G" by (rule Gsame)
            then show "group_of g q \<in> {?G}" by (rule singleton_iff[THEN iffD2])
          qed
          have "?p \<in> ?G" by (rule group_of_self)
          then have "?G \<in> group_of g ` ?G" by (rule imageI)
          then show "{?G} \<subseteq> group_of g ` ?G" by blast
        qed
        then show ?thesis by (simp add: image_Un)
      qed
      have notin: "?G \<notin> group_of g ` T"
      proof
        assume "?G \<in> group_of g ` T"
        then obtain q where q: "q \<in> T" "?G = group_of g q" by blast
        have "q \<in> ?G" unfolding q(2) by simp
        moreover have "q \<in> V" using q(1) T by blast
        ultimately show False using disj by blast
      qed
      have k2: "k + 1 = int (card (group_of g ` (T \<union> ?G)))"
        unfolding img using finT notin k by simp
      have sc': "scan_cell g y x st = (V \<union> ?G, T \<union> ?G, k + 1)"
        unfolding sc using big by (rule if_P)
      show ?thesis unfolding sc' scan_inv_iff
        by (intro conjI allI) (rule V2, rule T2, rule k2)
    next
      case small: False
      have T2: "q \<in> T \<longleftrightarrow> q \<in> V \<union> ?G \<and> 4 \<le> card (group_of g q)" for q
      proof (cases "q \<in> ?G")
        case inG: True
        then have "group_of g q = ?G" by (rule Gsame)
        then have "\<not> 4 \<le> card (group_of g q)" using small by simp
        then show ?thesis using T[of q] by simp
      next
        case notG: False
        then show ?thesis using T[of q] by simp
      qed
      have sc': "scan_cell g y x st = (V \<union> ?G, T, k)"
        unfolding sc using small by (rule if_not_P)
      show ?thesis unfolding sc' scan_inv_iff
        by (intro conjI allI) (rule V2, rule T2, rule k)
    qed
  qed
qed

lemma scan_inv_start: "scan_inv g {} ({}, {}, 0)"
  by (simp add: scan_inv_def)

lemma scan_row_inv:
  assumes "scan_inv g P st" "0 \<le> y" "y < height g" "int n \<le> width g"
  shows "scan_inv g (P \<union> {(x, y') | x y'. 0 \<le> x \<and> x < int n \<and> y' = y})
           (fold (scan_cell g y) (map int [0..<n]) st)"
  using assms(4)
proof (induction n)
  case 0
  have "P \<union> {(x, y') | x y'. 0 \<le> x \<and> x < int 0 \<and> y' = y} = P" by auto
  then show ?case using assms(1) by simp
next
  case (Suc n)
  let ?st = "fold (scan_cell g y) (map int [0..<n]) st"
  let ?P = "P \<union> {(x, y') | x y'. 0 \<le> x \<and> x < int n \<and> y' = y}"
  have IH: "scan_inv g ?P ?st" using Suc by simp
  have ib: "in_bounds g (int n) y" using Suc.prems assms(2,3) by (simp add: in_bounds_def)
  have step: "fold (scan_cell g y) (map int [0..<Suc n]) st = scan_cell g y (int n) ?st"
    by simp
  have set: "P \<union> {(x, y') | x y'. 0 \<le> x \<and> x < int (Suc n) \<and> y' = y} = insert (int n, y) ?P"
    by auto
  show ?case unfolding step set using IH ib by (rule scan_cell_inv)
qed

lemma scan_rows_inv:
  assumes "int m \<le> height g" "0 \<le> width g"
  shows "scan_inv g {(x, y). 0 \<le> x \<and> x < width g \<and> 0 \<le> y \<and> y < int m}
           (fold (\<lambda>y st. fold (scan_cell g y) (map int [0..<nat (width g)]) st)
                 (map int [0..<m]) ({}, {}, 0))"
  using assms(1)
proof (induction m)
  case 0
  have e: "{(x, y). 0 \<le> x \<and> x < width g \<and> 0 \<le> y \<and> y < int 0} = {}" by auto
  show ?case unfolding e using scan_inv_start[of g] by simp
next
  case (Suc m)
  let ?f = "\<lambda>y st. fold (scan_cell g y) (map int [0..<nat (width g)]) st"
  let ?st = "fold ?f (map int [0..<m]) ({}, {}, 0)"
  let ?P = "{(x, y). 0 \<le> x \<and> x < width g \<and> 0 \<le> y \<and> y < int m}"
  have IH: "scan_inv g ?P ?st" using Suc by simp
  have step: "fold ?f (map int [0..<Suc m]) ({}, {}, 0) = ?f (int m) ?st" by simp
  have set: "{(x, y). 0 \<le> x \<and> x < width g \<and> 0 \<le> y \<and> y < int (Suc m)} =
             ?P \<union> {(x, y') | x y'. 0 \<le> x \<and> x < int (nat (width g)) \<and> y' = int m}"
    using assms(2) by auto
  have "scan_inv g (?P \<union> {(x, y') | x y'. 0 \<le> x \<and> x < int (nat (width g)) \<and> y' = int m})
          (?f (int m) ?st)"
    using IH
  proof (rule scan_row_inv)
    show "0 \<le> int m" by simp
    show "int m < height g" using Suc.prems by simp
    show "int (nat (width g)) \<le> width g" using assms(2) by simp
  qed
  then show ?case unfolding step set .
qed

lemma scan_groups_spec:
  assumes "0 \<le> width g" "0 \<le> height g"
  shows "scan_groups g = (occupied_cells g, clearable g, int (card (group_of g ` clearable g)))"
proof -
  obtain V T k where st: "scan_groups g = (V, T, k)" by (cases "scan_groups g")
  have "scan_inv g {(x, y). 0 \<le> x \<and> x < width g \<and> 0 \<le> y \<and> y < int (nat (height g))}
          (scan_groups g)"
    unfolding scan_groups_def using assms by (intro scan_rows_inv) simp_all
  then have V: "\<And>q. q \<in> V \<longleftrightarrow>
        (\<exists>p \<in> {(x, y). 0 \<le> x \<and> x < width g \<and> 0 \<le> y \<and> y < int (nat (height g))} \<inter> occupied_cells g.
            q \<in> group_of g p)"
    and T: "\<And>q. q \<in> T \<longleftrightarrow> q \<in> V \<and> 4 \<le> card (group_of g q)"
    and k: "k = int (card (group_of g ` T))"
    unfolding st scan_inv_iff by blast+
  have Veq: "V = occupied_cells g"
  proof (rule set_eqI)
    fix q
    show "q \<in> V \<longleftrightarrow> q \<in> occupied_cells g"
    proof
      assume "q \<in> V"
      then obtain p where "p \<in> occupied_cells g" "q \<in> group_of g p" using V by blast
      then show "q \<in> occupied_cells g" using group_of_occupied by blast
    next
      assume q: "q \<in> occupied_cells g"
      then have "q \<in> {(x, y). 0 \<le> x \<and> x < width g \<and> 0 \<le> y \<and> y < int (nat (height g))}"
        using assms(2) by (auto simp: occupied_cells_def in_bounds_def)
      moreover have "q \<in> group_of g q" by simp
      ultimately show "q \<in> V" using V q by blast
    qed
  qed
  have Teq: "T = clearable g" using T Veq by (auto simp: clearable_def)
  show ?thesis unfolding st using Veq Teq k by simp
qed

lemma clear_cells_spec:
  assumes "wf_grid g"
  shows "wf_grid (clear_cells g S)" "width (clear_cells g S) = width g"
    "height (clear_cells g S) = height g"
    "in_bounds g x y \<Longrightarrow> cell_at (clear_cells g S) x y = (if (x, y) \<in> S then 0 else cell_at g x y)"
proof -
  let ?f = "\<lambda>(y, row). map (\<lambda>(x, v). if (int x, int y) \<in> S then 0 else v) (enumerate 0 row)"
  have rows: "\<And>i. i < length (grid g) \<Longrightarrow>
      map ?f (enumerate 0 (grid g)) ! i =
        map (\<lambda>(x, v). if (int x, int i) \<in> S then 0 else v) (enumerate 0 (grid g ! i))"
    by (simp add: nth_enumerate_eq)
  show "wf_grid (clear_cells g S)"
    using assms by (auto simp: wf_grid_def clear_cells_def in_set_enumerate_eq)
  show "width (clear_cells g S) = width g" "height (clear_cells g S) = height g"
    by (simp_all add: clear_cells_def)
  assume ib: "in_bounds g x y"
  then have y: "nat y < length (grid g)" using assms by (auto simp: in_bounds_def wf_grid_def)
  have x: "nat x < length (grid g ! nat y)"
    using row_length[OF assms, of y] ib by (auto simp: in_bounds_def)
  have "cell_at (clear_cells g S) x y =
          map (\<lambda>(x, v). if (int x, int (nat y)) \<in> S then 0 else v) (enumerate 0 (grid g ! nat y)) ! nat x"
    using rows[OF y] by (simp add: cell_at_def clear_cells_def)
  also have "\<dots> = (if (int (nat x), int (nat y)) \<in> S then 0 else grid g ! nat y ! nat x)"
    using x by (simp add: nth_enumerate_eq)
  finally show "cell_at (clear_cells g S) x y = (if (x, y) \<in> S then 0 else cell_at g x y)"
    using ib by (simp add: in_bounds_def cell_at_def)
qed

lemma in_bounds_clear_cells [simp]: "in_bounds (clear_cells g S) = in_bounds g"
  by (simp add: in_bounds_def fun_eq_iff clear_cells_def)

lemma clear_cells_nothing: "wf_grid g \<Longrightarrow> clear_cells g {} = g"
  by (rule grid_eqI) (simp_all add: clear_cells_spec)

lemma find_and_clear_groups_eq:
  assumes "wf_grid g"
  shows "find_and_clear_groups g =
           (clear_cells g (clearable g), int (card (clearable g)),
            int (card (group_of g ` clearable g)))"
proof -
  have "0 \<le> width g" "0 \<le> height g" using assms by (simp_all add: wf_grid_def)
  then show ?thesis by (simp add: find_and_clear_groups_def scan_groups_spec)
qed

subsection \<open>The board after clearing\<close>

text \<open>Writing 0 to the members of a set one by one, in whatever order a list enumerates
  them, gives \<open>clear_cells\<close>.\<close>

lemma clear_cells_any_order:
  assumes "wf_grid g" "\<forall>p \<in> set ps. in_bounds g (fst p) (snd p)"
  shows "fold (\<lambda>p g. set_cell g (fst p) (snd p) 0) ps g = clear_cells g (set ps)"
  using assms
proof (induction ps arbitrary: g)
  case Nil
  then show ?case by (simp add: clear_cells_nothing)
next
  case (Cons p ps)
  let ?g1 = "set_cell g (fst p) (snd p) 0"
  have wf1: "wf_grid ?g1" using Cons.prems(1) by (rule wf_set_cell)
  have ibp: "in_bounds g (fst p) (snd p)" using Cons.prems(2) by simp
  have "fold (\<lambda>p g. set_cell g (fst p) (snd p) 0) (p # ps) g = clear_cells ?g1 (set ps)"
    using Cons.IH[OF wf1] Cons.prems(2) by simp
  also have "\<dots> = clear_cells g (set (p # ps))"
  proof (rule grid_eqI)
    show "wf_grid (clear_cells ?g1 (set ps))" using wf1 by (rule clear_cells_spec(1))
    show "wf_grid (clear_cells g (set (p # ps)))" using Cons.prems(1) by (rule clear_cells_spec(1))
    show "width (clear_cells ?g1 (set ps)) = width (clear_cells g (set (p # ps)))"
      by (simp add: clear_cells_spec(2)[OF wf1] clear_cells_spec(2)[OF Cons.prems(1)])
    show "height (clear_cells ?g1 (set ps)) = height (clear_cells g (set (p # ps)))"
      by (simp add: clear_cells_spec(3)[OF wf1] clear_cells_spec(3)[OF Cons.prems(1)])
    fix x y assume "in_bounds (clear_cells ?g1 (set ps)) x y"
    then have ib: "in_bounds g x y" by simp
    then have nn: "0 \<le> x" "0 \<le> y" by (simp_all add: in_bounds_def)
    have ib1: "in_bounds ?g1 x y" using ib by simp
    show "cell_at (clear_cells ?g1 (set ps)) x y = cell_at (clear_cells g (set (p # ps))) x y"
      unfolding clear_cells_spec(4)[OF wf1 ib1] clear_cells_spec(4)[OF Cons.prems(1) ib]
        cell_at_set_cell[OF Cons.prems(1) ibp nn]
      by (cases p) auto
  qed
  finally show ?case .
qed

lemma occupied_cells_clear_cells:
  assumes "wf_grid g"
  shows "occupied_cells (clear_cells g S) = occupied_cells g - S"
  using clear_cells_spec(4)[OF assms, where S = S]
  by (auto simp: occupied_cells_def split: if_splits)

lemma cell_at_clear_cells_kept:
  assumes "wf_grid g" "p \<in> occupied_cells (clear_cells g S)"
  shows "cell_at (clear_cells g S) (fst p) (snd p) = cell_at g (fst p) (snd p)"
proof -
  have "p \<in> occupied_cells g" "p \<notin> S"
    using assms occupied_cells_clear_cells[OF assms(1), of S] by auto
  then show ?thesis
    using clear_cells_spec(4)[OF assms(1), of "fst p" "snd p" S]
    by (auto simp: occupied_cells_def)
qed

lemma linked_clear_cells: "wf_grid g \<Longrightarrow> linked (clear_cells g S) \<subseteq> linked g"
proof
  fix e assume wf: "wf_grid g" and e: "e \<in> linked (clear_cells g S)"
  obtain p q where pq: "e = (p, q)" by (cases e)
  have o: "p \<in> occupied_cells (clear_cells g S)" "q \<in> occupied_cells (clear_cells g S)"
    "neighbours p q"
    "cell_at (clear_cells g S) (fst q) (snd q) = cell_at (clear_cells g S) (fst p) (snd p)"
    using e by (simp_all add: pq linked_def)
  have "p \<in> occupied_cells g" "q \<in> occupied_cells g"
    using o(1,2) occupied_cells_clear_cells[OF wf, of S] by auto
  moreover have "cell_at g (fst q) (snd q) = cell_at g (fst p) (snd p)"
    using cell_at_clear_cells_kept[OF wf o(1)] cell_at_clear_cells_kept[OF wf o(2)] o(4) by simp
  ultimately show "e \<in> linked g" using o(3) by (simp add: pq linked_def)
qed

lemma group_of_clear_cells: "wf_grid g \<Longrightarrow> group_of (clear_cells g S) p \<subseteq> group_of g p"
  unfolding group_of_def using rtrancl_mono[OF linked_clear_cells[of g S]] by blast

lemma clearable_after_clear:
  assumes "wf_grid g"
  shows "clearable (clear_cells g (clearable g)) = {}"
proof (rule ccontr)
  let ?g' = "clear_cells g (clearable g)"
  assume "clearable ?g' \<noteq> {}"
  then obtain p where p: "p \<in> occupied_cells ?g'" "4 \<le> card (group_of ?g' p)"
    by (auto simp: clearable_def)
  have po: "p \<in> occupied_cells g" "p \<notin> clearable g"
    using p(1) occupied_cells_clear_cells[OF assms, of "clearable g"] by auto
  have "card (group_of ?g' p) \<le> card (group_of g p)"
    using group_of_clear_cells[OF assms] finite_group_of[OF po(1)] by (rule card_mono[rotated])
  then have "4 \<le> card (group_of g p)" using p(2) by linarith
  then show False using po by (simp add: clearable_def)
qed

subsection \<open>Counting occupied cells\<close>

lemma card_nonzero_prefix:
  "card {y::int. 0 \<le> y \<and> y < int n \<and> f y \<noteq> (0::int)} =
     length (filter (\<lambda>v. v \<noteq> 0) (map (\<lambda>j. f (int j)) [0..<n]))"
proof (induction n)
  case 0
  have e: "{y::int. 0 \<le> y \<and> y < int 0 \<and> f y \<noteq> 0} = {}" by auto
  show ?case unfolding e by simp
next
  case (Suc n)
  let ?A = "{y::int. 0 \<le> y \<and> y < int n \<and> f y \<noteq> 0}"
  have fin: "finite ?A" by (rule finite_subset[of _ "{0..<int n}"]) auto
  have notin: "int n \<notin> ?A" by simp
  have "{y::int. 0 \<le> y \<and> y < int (Suc n) \<and> f y \<noteq> 0} =
          (if f (int n) \<noteq> 0 then insert (int n) ?A else ?A)"
  proof -
    have split: "y < int (Suc n) \<longleftrightarrow> y < int n \<or> y = int n" for y :: int by linarith
    show ?thesis unfolding split by auto
  qed
  then show ?case using Suc fin notin by simp
qed

lemma occupied_cells_Sigma:
  "occupied_cells g =
     (SIGMA x:{0..<width g}. {y. 0 \<le> y \<and> y < int (nat (height g)) \<and> cell_at g x y \<noteq> 0})"
  by (auto simp: occupied_cells_def in_bounds_def)

lemma occupied_sum:
  "occupied g =
     (\<Sum>x\<in>{0..<width g}. length (filter (\<lambda>v. v \<noteq> 0) (col_cells g x (nat (height g)))))"
proof -
  have "occupied g =
      (\<Sum>x\<in>{0..<width g}. card {y. 0 \<le> y \<and> y < int (nat (height g)) \<and> cell_at g x y \<noteq> 0})"
    unfolding occupied_def occupied_cells_Sigma
  proof (rule card_SigmaI)
    show "finite {0..<width g}" by simp
    show "\<forall>x\<in>{0..<width g}.
            finite {y. 0 \<le> y \<and> y < int (nat (height g)) \<and> cell_at g x y \<noteq> 0}"
    proof
      fix x
      show "finite {y. 0 \<le> y \<and> y < int (nat (height g)) \<and> cell_at g x y \<noteq> 0}"
        by (rule finite_subset[of _ "{0..<int (nat (height g))}"]) auto
    qed
  qed
  then show ?thesis unfolding card_nonzero_prefix col_cells_def .
qed

lemma occupied_apply_gravity:
  assumes "wf_grid g"
  shows "occupied (apply_gravity g) = occupied g"
proof -
  note G = apply_gravity_spec[OF assms]
  have "length (filter (\<lambda>v. v \<noteq> 0) (col_cells (apply_gravity g) x (nat (height g)))) =
        length (filter (\<lambda>v. v \<noteq> 0) (col_cells g x (nat (height g))))"
    if "x \<in> {0..<width g}" for x
  proof -
    have "column (apply_gravity g) x = compact (column g x)" using G(4) that by simp
    then have "filter (\<lambda>v. v \<noteq> 0) (column (apply_gravity g) x) = filter (\<lambda>v. v \<noteq> 0) (column g x)"
      by (simp add: filter_compact)
    then show ?thesis
      using column_col_cells[OF G(1), of x] column_col_cells[OF assms, of x] G(3) by simp
  qed
  then show ?thesis unfolding occupied_sum G(2) G(3) by (rule sum.cong[OF refl])
qed

lemma occupied_le_area:
  assumes "wf_grid g"
  shows "int (occupied g) \<le> width g * height g"
proof -
  have "occupied_cells g \<subseteq> {0..<width g} \<times> {0..<height g}"
    by (auto simp: occupied_cells_def in_bounds_def)
  then have "occupied g \<le> card ({0..<width g} \<times> {0..<height g})"
    unfolding occupied_def by (intro card_mono) simp_all
  then have le: "occupied g \<le> nat (width g) * nat (height g)" by simp
  have w: "int (nat (width g)) = width g" and h: "int (nat (height g)) = height g"
    using assms by (simp_all add: wf_grid_def)
  have "int (occupied g) \<le> int (nat (width g)) * int (nat (height g))"
    using le by (metis of_nat_le_iff of_nat_mult)
  then show ?thesis unfolding w h .
qed

lemma finite_clearable [simp]: "finite (clearable g)"
  by (rule finite_subset[OF _ finite_occupied_cells[of g]]) (auto simp: clearable_def)

lemma clearable_group: "p \<in> clearable g \<Longrightarrow> group_of g p \<subseteq> clearable g"
proof
  fix q assume p: "p \<in> clearable g" and q: "q \<in> group_of g p"
  have "q \<in> occupied_cells g" using group_of_occupied[OF _ q] p by (simp add: clearable_def)
  moreover have "group_of g q = group_of g p" using q by (rule group_of_eq)
  ultimately show "q \<in> clearable g" using p by (simp add: clearable_def)
qed

lemma card_clearable_ge4:
  assumes "clearable g \<noteq> {}"
  shows "4 \<le> card (clearable g)"
proof -
  from assms obtain p where p: "p \<in> clearable g" by blast
  have "4 \<le> card (group_of g p)" using p by (simp add: clearable_def)
  also have "\<dots> \<le> card (clearable g)"
    using clearable_group[OF p] by (intro card_mono) simp_all
  finally show ?thesis .
qed

lemma occupied_clear_clearable:
  assumes "wf_grid g"
  shows "occupied (clear_cells g (clearable g)) + card (clearable g) = occupied g"
proof -
  have sub: "clearable g \<subseteq> occupied_cells g" by (auto simp: clearable_def)
  have "occupied (clear_cells g (clearable g)) = card (occupied_cells g) - card (clearable g)"
    unfolding occupied_def occupied_cells_clear_cells[OF assms]
    using sub by (intro card_Diff_subset) simp_all
  moreover have "card (clearable g) \<le> card (occupied_cells g)"
    using sub by (intro card_mono) simp_all
  ultimately show ?thesis by (simp add: occupied_def)
qed

subsection \<open>One pass and the loop\<close>

lemma chain_pass_cases:
  assumes "find_and_clear_groups (apply_gravity (game_grid s)) = (g', cleared, groups)"
  shows "chain_pass s =
           (if cleared = 0 then (False, s\<lparr>game_grid := g'\<rparr>)
            else (True, s\<lparr>game_grid := g', chain_count := chain_count s + 1,
                          score := score s + cleared * 10 * max 1 ((chain_count s + 1) * 2) * groups\<rparr>))"
  using assms by (simp add: chain_pass_def Let_def)

lemma chain_pass_wf:
  assumes "wf_grid (game_grid s)"
  shows "wf_grid (game_grid (snd (chain_pass s)))"
    and "width (game_grid (snd (chain_pass s))) = width (game_grid s)"
    and "height (game_grid (snd (chain_pass s))) = height (game_grid s)"
    and "fst (chain_pass s) \<Longrightarrow>
           occupied (game_grid (snd (chain_pass s))) + 4 \<le> occupied (game_grid s)"
    and "\<not> fst (chain_pass s) \<Longrightarrow>
           snd (chain_pass s) = s\<lparr>game_grid := apply_gravity (game_grid s)\<rparr>"
proof -
  let ?a = "apply_gravity (game_grid s)"
  note G = apply_gravity_spec[OF assms]
  note F = find_and_clear_groups_eq[OF G(1)]
  note C = clear_cells_spec[OF G(1), where S = "clearable ?a"]
  note P = chain_pass_cases[OF F]
  have grid: "game_grid (snd (chain_pass s)) = clear_cells ?a (clearable ?a)"
    unfolding P by simp
  show "wf_grid (game_grid (snd (chain_pass s)))"
    "width (game_grid (snd (chain_pass s))) = width (game_grid s)"
    "height (game_grid (snd (chain_pass s))) = height (game_grid s)"
    unfolding grid using C(1,2,3) G(2,3) by simp_all
  have fst_iff: "fst (chain_pass s) \<longleftrightarrow> clearable ?a \<noteq> {}"
    unfolding P by simp
  {
    assume "fst (chain_pass s)"
    then have "4 \<le> card (clearable ?a)" using fst_iff card_clearable_ge4 by blast
    then show "occupied (game_grid (snd (chain_pass s))) + 4 \<le> occupied (game_grid s)"
      unfolding grid using occupied_clear_clearable[OF G(1)] occupied_apply_gravity[OF assms]
      by linarith
  }
  {
    assume "\<not> fst (chain_pass s)"
    then have e: "clearable ?a = {}" using fst_iff by blast
    show "snd (chain_pass s) = s\<lparr>game_grid := apply_gravity (game_grid s)\<rparr>"
      unfolding P e using clear_cells_nothing[OF G(1)] by simp
  }
qed

lemma process_chains_loop_unfold:
  "process_chains_loop s =
     (if fst (chain_pass s) then process_chains_loop (pass_step s) else Some (pass_step s))"
  by (subst process_chains_loop.simps) (simp add: pass_step_def split: prod.splits)

lemma loop_terminates:
  assumes "wf_grid (game_grid s)"
  shows "\<exists>n. (\<forall>i<n. fst (chain_pass ((pass_step ^^ i) s))) \<and>
             \<not> fst (chain_pass ((pass_step ^^ n) s)) \<and>
             process_chains_loop s = Some (pass_step ((pass_step ^^ n) s)) \<and>
             4 * n \<le> occupied (game_grid s)"
  using assms
proof (induction "occupied (game_grid s)" arbitrary: s rule: less_induct)
  case less
  show ?case
  proof (cases "fst (chain_pass s)")
    case False
    have "process_chains_loop s = Some (pass_step s)"
      using False by (subst process_chains_loop_unfold) simp
    then show ?thesis using False by (intro exI[of _ 0]) simp
  next
    case True
    let ?s1 = "pass_step s"
    have wf1: "wf_grid (game_grid ?s1)"
      using chain_pass_wf(1)[OF less.prems] by (simp add: pass_step_def)
    have dec: "occupied (game_grid ?s1) + 4 \<le> occupied (game_grid s)"
      using chain_pass_wf(4)[OF less.prems True] by (simp add: pass_step_def)
    then have "occupied (game_grid ?s1) < occupied (game_grid s)" by simp
    from less.hyps[OF this wf1]
    obtain n where n: "\<forall>i<n. fst (chain_pass ((pass_step ^^ i) ?s1))"
      "\<not> fst (chain_pass ((pass_step ^^ n) ?s1))"
      "process_chains_loop ?s1 = Some (pass_step ((pass_step ^^ n) ?s1))"
      "4 * n \<le> occupied (game_grid ?s1)"
      by blast
    have shift: "(pass_step ^^ i) ?s1 = (pass_step ^^ Suc i) s" for i
      by (simp add: funpow_swap1)
    have a: "\<forall>i<Suc n. fst (chain_pass ((pass_step ^^ i) s))"
    proof (intro allI impI)
      fix i assume "i < Suc n"
      show "fst (chain_pass ((pass_step ^^ i) s))"
      proof (cases i)
        case 0
        then show ?thesis using True by simp
      next
        case (Suc j)
        then have "j < n" using \<open>i < Suc n\<close> by simp
        then have "fst (chain_pass ((pass_step ^^ j) ?s1))" using n(1) by blast
        then show ?thesis unfolding shift Suc .
      qed
    qed
    have b: "\<not> fst (chain_pass ((pass_step ^^ Suc n) s))" using n(2) unfolding shift .
    have "process_chains_loop s = process_chains_loop ?s1"
      using True by (subst process_chains_loop_unfold) simp
    then have c: "process_chains_loop s = Some (pass_step ((pass_step ^^ Suc n) s))"
      using n(3) unfolding shift by simp
    have d: "4 * Suc n \<le> occupied (game_grid s)" using n(4) dec by simp
    show ?thesis using a b c d by blast
  qed
qed

lemma after_passes_funpow: "after_passes n st = (pass_step ^^ n) (st\<lparr>chain_count := 0\<rparr>)"
  by (induction n) (simp_all add: pass_step_def)

lemma passes_clear_iff: "passes_clear n st \<longleftrightarrow> (\<forall>i<n. fst (chain_pass (after_passes i st)))"
  by (induction n) (auto simp: less_Suc_eq)

lemma chain_pass_count:
  "chain_count (snd (chain_pass s)) = (if fst (chain_pass s) then chain_count s + 1 else chain_count s)"
proof -
  obtain g' cleared groups where
    F: "find_and_clear_groups (apply_gravity (game_grid s)) = (g', cleared, groups)"
    by (cases "find_and_clear_groups (apply_gravity (game_grid s))") auto
  show ?thesis unfolding chain_pass_cases[OF F] by simp
qed

lemma chain_count_after_passes:
  "passes_clear n st \<Longrightarrow> chain_count (after_passes n st) = int n"
proof (induction n)
  case 0
  then show ?case by simp
next
  case (Suc n)
  then have "chain_count (after_passes n st) = int n" "fst (chain_pass (after_passes n st))"
    by simp_all
  then show ?case using chain_pass_count[of "after_passes n st"] by simp
qed

lemma wf_after_passes:
  assumes "wf_grid (game_grid st)"
  shows "wf_grid (game_grid (after_passes n st)) \<and>
         width (game_grid (after_passes n st)) = width (game_grid st) \<and>
         height (game_grid (after_passes n st)) = height (game_grid st)"
proof (induction n)
  case 0
  then show ?case using assms by simp
next
  case (Suc n)
  then show ?case using chain_pass_wf(1,2,3)[of "after_passes n st"] by simp
qed

lemma process_chains_after_passes:
  "passes_clear n st \<Longrightarrow> process_chains st = process_chains_loop (after_passes n st)"
proof (induction n)
  case 0
  then show ?case by (simp add: process_chains_def)
next
  case (Suc n)
  then have "process_chains st = process_chains_loop (after_passes n st)"
    and "fst (chain_pass (after_passes n st))" by simp_all
  then show ?case
    by (subst (asm) process_chains_loop_unfold) (simp add: pass_step_def)
qed

lemma two_groups_passes:
  "chain_pass (two_groups_game\<lparr>chain_count := 0\<rparr>) = (True, two_groups_cleared)"
  "chain_pass two_groups_cleared = (False, two_groups_cleared)"
  by code_simp+

lemma two_groups_run: "process_chains two_groups_game = Some two_groups_cleared"
  unfolding process_chains_def
  by (subst process_chains_loop_unfold, simp add: two_groups_passes pass_step_def)+

section \<open>Moves and rotations\<close>

text \<open>
  Claim C5. While the game is not over, each of the move keys (left, right, down) and
  rotation keys (z, x clockwise; c counter-clockwise) of \<open>handle_input\<close> builds the
  hypothetical pair (the live pair translated, or with its rotation state advanced modulo
  4, anchor unchanged) and commits it exactly when \<open>can_place_pair\<close> accepts it. When it
  does not, the whole session state, so also the anchor and the rotation state, is
  returned unchanged: no other placement (wall-kick) is tried.
\<close>

theorem move_rotate_committed_iff_placeable:
  assumes "\<not> game_over st"
    and "0 \<le> rotation_state (current_pair st)" "rotation_state (current_pair st) < 4"
  shows "handle_input c1 c2 c3 c4 (KEYDOWN K_LEFT) st =
           Some (Inr (commit_if_placeable st (move (current_pair st) (- 1) 0))) \<and>
         handle_input c1 c2 c3 c4 (KEYDOWN K_RIGHT) st =
           Some (Inr (commit_if_placeable st (move (current_pair st) 1 0))) \<and>
         handle_input c1 c2 c3 c4 (KEYDOWN K_DOWN) st =
           Some (Inr (commit_if_placeable st (move (current_pair st) 0 1))) \<and>
         handle_input c1 c2 c3 c4 (KEYDOWN K_z) st =
           Some (Inr (commit_if_placeable st (rotate_clockwise (current_pair st)))) \<and>
         handle_input c1 c2 c3 c4 (KEYDOWN K_x) st =
           Some (Inr (commit_if_placeable st (rotate_clockwise (current_pair st)))) \<and>
         handle_input c1 c2 c3 c4 (KEYDOWN K_c) st =
           Some (Inr (commit_if_placeable st (rotate_counter_clockwise (current_pair st)))) \<and>
         (\<forall>p. commit_if_placeable st p =
                (if can_place_pair (game_grid st) p = Inr True then st\<lparr>current_pair := p\<rparr>
                 else st))"
  using assms try_rotate_eq[of st True] try_rotate_eq[of st False]
  by (simp add: handle_input_def try_move_eq commit_if_placeable_def)

text \<open>On a 3 x 2 board with a pair at the top middle, sub to the right: the clockwise
  rotation and the move to the left are committed; the counter-clockwise rotation (sub
  above the top row) and the move to the right (sub beyond the right wall) are rejected
  and leave the state as it was.\<close>

theorem move_rotate_committed_iff_placeable_witness:
  "handle_input 1 1 1 1 (KEYDOWN K_z) (demo_game demo_board (demo_pair 1 0 0)) =
     Some (Inr (demo_game demo_board ((demo_pair 1 0 0)\<lparr>rotation_state := 1\<rparr>))) \<and>
   handle_input 1 1 1 1 (KEYDOWN K_c) (demo_game demo_board (demo_pair 1 0 0)) =
     Some (Inr (demo_game demo_board (demo_pair 1 0 0))) \<and>
   handle_input 1 1 1 1 (KEYDOWN K_RIGHT) (demo_game demo_board (demo_pair 1 0 0)) =
     Some (Inr (demo_game demo_board (demo_pair 1 0 0))) \<and>
   handle_input 1 1 1 1 (KEYDOWN K_LEFT) (demo_game demo_board (demo_pair 1 0 0)) =
     Some (Inr (demo_game demo_board
                  ((demo_pair 1 0 0)\<lparr>main_puyo := \<lparr>pos_x = 0, pos_y = 0\<rparr>\<rparr>)))"
  using move_rotate_committed_iff_placeable[of "demo_game demo_board (demo_pair 1 0 0)" 1 1 1 1]
  by (simp add: demo_game_def demo_pair_def demo_board_def board_def commit_if_placeable_def
      PuyoPair_init_def can_place_pair_def get_positions_def py_index_def offsets_def
      Position_add_def is_valid_position_def cell_at_def move_def rotate_clockwise_def
      rotate_counter_clockwise_def)

section \<open>Spawn and restart\<close>

text \<open>
  Claim C6. \<open>spawn_new_pair\<close> never fails; it puts the new current pair at the spawn
  anchor \<open>(2, 0)\<close> with rotation state 0 and raises the game-over flag exactly when the
  two cells \<open>(2, 0)\<close> and \<open>(3, 0)\<close> are not both in bounds and EMPTY: the flag afterwards is
  the flag before or that condition. The board and the score are not touched.
  \<open>restart_game\<close> clears the flag, sets the score to 0 and installs a fresh 6 x 12 board
  with no occupied cell.
\<close>

theorem spawn_new_pair_game_over:
  "\<exists>st'. spawn_new_pair color1 color2 st = Inr st' \<and>
     game_over st' =
       (game_over st \<or>
        \<not> (is_valid_position (game_grid st) 2 0 \<and> is_valid_position (game_grid st) 3 0)) \<and>
     game_grid st' = game_grid st \<and> score st' = score st \<and>
     main_puyo (current_pair st') = \<lparr>pos_x = 2, pos_y = 0\<rparr> \<and>
     rotation_state (current_pair st') = 0 \<and>
     game_over (restart_game c1 c2 c3 c4 st) = False \<and>
     score (restart_game c1 c2 c3 c4 st) = 0 \<and>
     game_grid (restart_game c1 c2 c3 c4 st) = GameGrid_init 6 12 \<and>
     occupied_cells (game_grid (restart_game c1 c2 c3 c4 st)) = {} \<and>
     wf_grid (game_grid (restart_game c1 c2 c3 c4 st))"
  by (auto simp: spawn_new_pair_def Let_def can_place_pair_def get_positions_valid GRID_WIDTH_def
      GRID_HEIGHT_def restart_game_def occupied_cells_init wf_grid_init)

text \<open>With cell \<open>(3, 0)\<close> occupied the spawn raises the flag; on the board of a restarted
  game it does not.\<close>

theorem spawn_new_pair_game_over_witness:
  "(\<exists>st'. spawn_new_pair 1 2 (demo_game blocked_board (demo_pair 1 0 0)) = Inr st' \<and>
      game_over st' = True) \<and>
   (\<exists>st'. spawn_new_pair 1 2 (restart_game 1 2 3 4 (demo_game blocked_board (demo_pair 1 0 0)))
             = Inr st' \<and> game_over st' = False)"
  using spawn_new_pair_game_over[of 1 2 "demo_game blocked_board (demo_pair 1 0 0)" 1 2 3 4]
    spawn_new_pair_game_over[of 1 2
      "restart_game 1 2 3 4 (demo_game blocked_board (demo_pair 1 0 0))" 1 2 3 4]
  by (auto simp: demo_game_def blocked_board_def board_def is_valid_position_def cell_at_def
      restart_game_def GameGrid_init_def GRID_WIDTH_def GRID_HEIGHT_def)

section \<open>Settling a pair whose sub cell is above the board\<close>

text \<open>
  Claim C10. Take a pair in rotation state 3 (sub above main) whose main cell is in the
  top row of a column, with a non-EMPTY main color, where the top of that column is
  occupied once main has settled: the top cell is occupied already, or main cannot fall
  (the board has one row, or the cell below the top is occupied). Then
  \<open>place_current_pair\<close> signals no failure and its result is the old board with the main
  color written into one cell \<open>(x, r)\<close> and nothing else. The scan for the sub cell
  starts and ends at row \<open>-1\<close>, for which \<open>place_puyo\<close> does nothing, so the sub color is
  not written; the number of occupied cells grows by one when main lands on an EMPTY
  cell and not at all otherwise.
\<close>

theorem place_pair_sub_never_written:
  assumes "wf_grid g" and "rotation_state pair = 3"
    and "main_puyo pair = \<lparr>pos_x = x, pos_y = 0\<rparr>"
    and "0 \<le> x" "x < width g" "0 < height g" and "main_color pair \<noteq> 0"
    and "cell_at g x 0 \<noteq> 0 \<or> height g = 1 \<or> cell_at g x 1 \<noteq> 0"
  shows "\<exists>r. 0 \<le> r \<and> r < height g \<and>
           settle_scan (set_cell g x r (main_color pair)) x (- 1) = Inr (- 1) \<and>
           place_pair g pair = Inr (set_cell g x r (main_color pair)) \<and>
           occupied (set_cell g x r (main_color pair)) =
             (if cell_at g x r = 0 then occupied g + 1 else occupied g)"
proof -
  from settle_scan_in_range[OF assms(1,4,5), of 0]
  obtain r where r: "settle_scan g x 0 = Inr r" "0 \<le> r" "r = 0 \<or> r < height g"
    "\<forall>k. 0 < k \<and> k \<le> r \<longrightarrow> cell_at g x k = 0"
    by auto
  have rh: "r < height g" using r(3) assms(6) by auto
  have ib: "in_bounds g x r" using r(2) rh assms by (simp add: in_bounds_def)
  let ?g1 = "set_cell g x r (main_color pair)"
  have wf1: "wf_grid ?g1" using assms(1) by (rule wf_set_cell)
  have ib0: "in_bounds ?g1 x 0" using assms by (simp add: in_bounds_def)
  have top: "cell_at ?g1 x 0 \<noteq> 0"
  proof (cases "r = 0")
    case True
    then show ?thesis using cell_at_set_cell[OF assms(1) ib, of x 0] assms by simp
  next
    case False
    then have "0 < r" using r(2) by simp
    then have "cell_at g x 1 = 0" "height g \<noteq> 1" using r(4) rh by auto
    then have "cell_at g x 0 \<noteq> 0" using assms(8) by auto
    then show ?thesis using cell_at_set_cell[OF assms(1) ib, of x 0] assms False by simp
  qed
  have sub: "settle_scan ?g1 x (- 1) = Inr (- 1)"
    using py_index_row[OF wf1, of 0] py_index_cell[OF wf1 ib0] top assms(6)
    by (subst settle_scan.simps) simp
  have "place_pair g pair = Inr ?g1"
    using r(1) sub ib assms(4,5)
    by (simp add: place_pair_def get_positions_valid(4)[OF assms(2)] assms(3) settle_one_def
        place_puyo_def in_bounds_def)
  moreover have "occupied ?g1 = (if cell_at g x r = 0 then occupied g + 1 else occupied g)"
    using occupied_set_cell_new[OF assms(1) ib assms(7)] .
  ultimately show ?thesis using r(2) rh sub by blast
qed

text \<open>A 3 x 3 board whose middle column is full below the top row.\<close>

theorem place_pair_sub_never_written_witness:
  "wf_grid full_column_board \<and>
   (\<exists>r. 0 \<le> r \<and> r < 3 \<and>
      settle_scan (set_cell full_column_board 1 r 1) 1 (- 1) = Inr (- 1) \<and>
      place_pair full_column_board (demo_pair 1 0 3) = Inr (set_cell full_column_board 1 r 1) \<and>
      occupied (set_cell full_column_board 1 r 1) =
        (if cell_at full_column_board 1 r = 0 then occupied full_column_board + 1
         else occupied full_column_board)) \<and>
   place_pair full_column_board (demo_pair 1 0 3) = Inr (board [[0, 1, 0], [0, 3, 0], [0, 4, 0]])"
proof -
  have wf: "wf_grid full_column_board"
    by (simp add: full_column_board_def board_def wf_grid_def)
  have c1: "cell_at full_column_board 1 1 \<noteq> 0"
    by (simp add: full_column_board_def board_def cell_at_def)
  have dims: "width full_column_board = 3" "height full_column_board = 3"
    by (simp_all add: full_column_board_def board_def)
  have pr: "rotation_state (demo_pair 1 0 3) = 3"
    "main_puyo (demo_pair 1 0 3) = \<lparr>pos_x = 1, pos_y = 0\<rparr>" "main_color (demo_pair 1 0 3) = 1"
    by (simp_all add: demo_pair_def PuyoPair_init_def)
  have ex: "\<exists>r. 0 \<le> r \<and> r < 3 \<and>
      settle_scan (set_cell full_column_board 1 r 1) 1 (- 1) = Inr (- 1) \<and>
      place_pair full_column_board (demo_pair 1 0 3) = Inr (set_cell full_column_board 1 r 1) \<and>
      occupied (set_cell full_column_board 1 r 1) =
        (if cell_at full_column_board 1 r = 0 then occupied full_column_board + 1
         else occupied full_column_board)"
    using place_pair_sub_never_written[OF wf pr(1,2), unfolded dims pr(3)] c1 by simp
  have "place_pair full_column_board (demo_pair 1 0 3) =
          Inr (board [[0, 1, 0], [0, 3, 0], [0, 4, 0]])"
    by (simp add: place_pair_def demo_pair_def PuyoPair_init_def get_positions_def py_index_def
        offsets_def Position_add_def settle_one_def settle_scan.simps full_column_board_def
        board_def place_puyo_def set_cell_def)
  with wf ex show ?thesis by blast
qed

section \<open>Where the colors of a new pair come from\<close>

text \<open>
  Claim C8 says that the two colors of a new pair are handed to the core by its caller, so
  that the session state is a function of the initial state and the inputs. In the source
  \<open>spawn_new_pair()\<close> takes no colors: \<open>generate_new_pair\<close> draws them with
  \<open>random.randint(1, 5)\<close>. As stated the claim fails: from one and the same state, one and
  the same call \<open>spawn_new_pair()\<close> can end in two different states.
\<close>

theorem spawn_same_input_different_states:
  "spawn_step fresh_game (spawned 1 1) \<and> spawn_step fresh_game (spawned 5 3) \<and>
   spawned 1 1 \<noteq> spawned 5 3"
proof -
  have "spawned 1 1 \<noteq> spawned 5 3"
    by (simp add: spawned_def fresh_game_def demo_game_def PuyoPair_init_def)
  then show ?thesis by (simp add: spawn_step_fresh)
qed

text \<open>
  Claim C8, amended. The colors of a new pair are drawn inside \<open>generate_new_pair\<close>, each
  in \<open>1 .. 5\<close>. The state after \<open>spawn_new_pair()\<close> is a function of the state before and
  the two draws: two outcomes from the same state have the same board, score, chain
  count, game-over flag, fall timer and current pair, their next pairs are the pairs
  generated from the respective draws, and the outcomes are equal exactly when the draws
  are.
\<close>

theorem spawn_determined_by_draws:
  assumes "spawn_step st a" "spawn_step st b"
  shows "game_grid a = game_grid b \<and> score a = score b \<and> chain_count a = chain_count b \<and>
         game_over a = game_over b \<and> fall_timer a = fall_timer b \<and>
         current_pair a = current_pair b \<and>
         (\<exists>c1 c2 d1 d2. c1 \<in> {1..5} \<and> c2 \<in> {1..5} \<and> d1 \<in> {1..5} \<and> d2 \<in> {1..5} \<and>
            next_pair a = generate_new_pair c1 c2 \<and> next_pair b = generate_new_pair d1 d2 \<and>
            spawn_new_pair c1 c2 st = Inr a \<and> spawn_new_pair d1 d2 st = Inr b \<and>
            (a = b \<longleftrightarrow> c1 = d1 \<and> c2 = d2))"
proof -
  from assms(1) obtain c1 c2 where a: "1 \<le> c1" "c1 \<le> 5" "1 \<le> c2" "c2 \<le> 5"
    "spawn_new_pair c1 c2 st = Inr a"
    by (auto elim: spawn_step.cases)
  from assms(2) obtain d1 d2 where b: "1 \<le> d1" "d1 \<le> 5" "1 \<le> d2" "d2 \<le> 5"
    "spawn_new_pair d1 d2 st = Inr b"
    by (auto elim: spawn_step.cases)
  have ea: "a = st\<lparr>current_pair := (next_pair st)\<lparr>main_puyo := \<lparr>pos_x = 2, pos_y = 0\<rparr>, rotation_state := 0\<rparr>,
             next_pair := generate_new_pair c1 c2,
             game_over := game_over st \<or>
               \<not> (is_valid_position (game_grid st) 2 0 \<and> is_valid_position (game_grid st) 3 0)\<rparr>"
    using a(5) unfolding spawn_new_pair_total by simp
  have eb: "b = st\<lparr>current_pair := (next_pair st)\<lparr>main_puyo := \<lparr>pos_x = 2, pos_y = 0\<rparr>, rotation_state := 0\<rparr>,
             next_pair := generate_new_pair d1 d2,
             game_over := game_over st \<or>
               \<not> (is_valid_position (game_grid st) 2 0 \<and> is_valid_position (game_grid st) 3 0)\<rparr>"
    using b(5) unfolding spawn_new_pair_total by simp
  have iff: "a = b \<longleftrightarrow> c1 = d1 \<and> c2 = d2"
  proof
    assume "a = b"
    then have "next_pair a = next_pair b" by simp
    then show "c1 = d1 \<and> c2 = d2"
      by (simp add: ea eb generate_new_pair_def PuyoPair_init_def)
  next
    assume "c1 = d1 \<and> c2 = d2"
    then show "a = b" using ea eb by simp
  qed
  have fields: "game_grid a = game_grid b \<and> score a = score b \<and> chain_count a = chain_count b \<and>
         game_over a = game_over b \<and> fall_timer a = fall_timer b \<and>
         current_pair a = current_pair b"
    by (simp add: ea eb)
  have nx: "next_pair a = generate_new_pair c1 c2" "next_pair b = generate_new_pair d1 d2"
    by (simp_all add: ea eb)
  show ?thesis
    using fields a b nx iff by (intro conjI exI[of _ c1] exI[of _ c2] exI[of _ d1] exI[of _ d2]) simp_all
qed

theorem spawn_determined_by_draws_witness:
  "spawn_step fresh_game (spawned 1 1) \<and> spawn_step fresh_game (spawned 5 3) \<and>
   game_grid (spawned 1 1) = game_grid (spawned 5 3) \<and>
   current_pair (spawned 1 1) = current_pair (spawned 5 3) \<and>
   game_over (spawned 1 1) = game_over (spawned 5 3)"
proof -
  have s: "spawn_step fresh_game (spawned 1 1)" "spawn_step fresh_game (spawned 5 3)"
    by (simp_all add: spawn_step_fresh)
  from spawn_determined_by_draws[OF s] s show ?thesis by blast
qed

section \<open>Order of settling the two cells of a pair\<close>

text \<open>
  Claim C4 says that the final board does not depend on which of the two cells is settled
  first, also when both are in one column. That fails: on an empty 3 x 3 board, a pair
  in rotation state 3 with main at \<open>(1, 1)\<close> and sub at \<open>(1, 0)\<close> ends with main in the
  bottom row and sub above it when main settles first (what the source does), and the
  other way round when sub settles first.
\<close>

theorem place_pair_order_matters_in_one_column:
  "place_pair open_board (demo_pair 1 1 3) = Inr (board [[0, 0, 0], [0, 2, 0], [0, 1, 0]]) \<and>
   place_pair_sub_first open_board (demo_pair 1 1 3) =
     Inr (board [[0, 0, 0], [0, 1, 0], [0, 2, 0]]) \<and>
   place_pair open_board (demo_pair 1 1 3) \<noteq> place_pair_sub_first open_board (demo_pair 1 1 3)"
  by (simp add: place_pair_def place_pair_sub_first_def demo_pair_def PuyoPair_init_def
      get_positions_def py_index_def offsets_def Position_add_def settle_one_def
      settle_scan.simps open_board_def board_def place_puyo_def set_cell_def)

text \<open>
  Claim C4, amended. \<open>place_current_pair\<close> settles main first, then sub. When the two
  cells are in different columns (rotation states 0 and 2) the outcome, failure included,
  is the same in either order, for every board and every anchor. Each cell in a column of
  the board, starting at row \<open>y \<ge> -1\<close>, lands at the row \<open>r \<ge> y\<close> reached by scanning
  down over EMPTY cells: every row below \<open>y\<close> down to \<open>r\<close> is EMPTY in that column, and
  the cell below \<open>r\<close> is out of range or occupied.
\<close>

theorem place_pair_order_irrelevant_across_columns:
  assumes "wf_grid g" and "rotation_state pair = 0 \<or> rotation_state pair = 2"
  shows "place_pair g pair = place_pair_sub_first g pair \<and>
         (\<forall>x y c. 0 \<le> x \<and> x < width g \<and> - 1 \<le> y \<longrightarrow>
            (\<exists>r. settle_one g (\<lparr>pos_x = x, pos_y = y\<rparr>, c) = Inr (place_puyo g x r c) \<and>
                 y \<le> r \<and> (r = y \<or> r < height g) \<and>
                 (\<forall>k. y < k \<and> k \<le> r \<longrightarrow> cell_at g x k = 0) \<and>
                 (r + 1 < height g \<longrightarrow> cell_at g x (r + 1) \<noteq> 0)))"
proof
  show "place_pair g pair = place_pair_sub_first g pair"
    using assms(2) settle_all_two_columns[OF assms(1)]
    by (auto simp: place_pair_def place_pair_sub_first_def get_positions_valid)
  show "\<forall>x y c. 0 \<le> x \<and> x < width g \<and> - 1 \<le> y \<longrightarrow>
            (\<exists>r. settle_one g (\<lparr>pos_x = x, pos_y = y\<rparr>, c) = Inr (place_puyo g x r c) \<and>
                 y \<le> r \<and> (r = y \<or> r < height g) \<and>
                 (\<forall>k. y < k \<and> k \<le> r \<longrightarrow> cell_at g x k = 0) \<and>
                 (r + 1 < height g \<longrightarrow> cell_at g x (r + 1) \<noteq> 0))"
  proof (intro allI impI)
    fix x y c :: int
    assume "0 \<le> x \<and> x < width g \<and> - 1 \<le> y"
    then have h: "0 \<le> x" "x < width g" "- 1 \<le> y" by auto
    from settle_scan_in_range[OF assms(1) h]
    show "\<exists>r. settle_one g (\<lparr>pos_x = x, pos_y = y\<rparr>, c) = Inr (place_puyo g x r c) \<and>
                 y \<le> r \<and> (r = y \<or> r < height g) \<and>
                 (\<forall>k. y < k \<and> k \<le> r \<longrightarrow> cell_at g x k = 0) \<and>
                 (r + 1 < height g \<longrightarrow> cell_at g x (r + 1) \<noteq> 0)"
      by (auto simp: settle_one_def)
  qed
qed

theorem place_pair_order_irrelevant_across_columns_witness:
  "wf_grid demo_board \<and>
   place_pair demo_board (demo_pair 1 0 0) = place_pair_sub_first demo_board (demo_pair 1 0 0) \<and>
   place_pair demo_board (demo_pair 1 0 0) = Inr (board [[0, 0, 2], [0, 1, 5]])"
proof -
  have wf: "wf_grid demo_board" by (simp add: demo_board_def board_def wf_grid_def)
  have rot: "rotation_state (demo_pair 1 0 0) = 0 \<or> rotation_state (demo_pair 1 0 0) = 2"
    by (simp add: demo_pair_def)
  have "place_pair demo_board (demo_pair 1 0 0) = Inr (board [[0, 0, 2], [0, 1, 5]])"
    by (simp add: place_pair_def demo_pair_def PuyoPair_init_def get_positions_def py_index_def
      offsets_def Position_add_def settle_one_def settle_scan.simps demo_board_def board_def
      place_puyo_def set_cell_def)
  with wf place_pair_order_irrelevant_across_columns[OF wf rot] show ?thesis by blast
qed

section \<open>Gravity\<close>

text \<open>
  Claim C2. On a well-formed board \<open>apply_gravity\<close> keeps the shape of the board and turns
  every column into its compacted form, which depends on that column alone. So in every
  column, afterwards, no occupied cell has an EMPTY cell anywhere below it; the occupied
  cells read from top to bottom are the same sequence as before; and the column holds the
  same multiset of values as before.
\<close>

theorem apply_gravity_compacts_columns:
  assumes "wf_grid g"
  shows "wf_grid (apply_gravity g) \<and> width (apply_gravity g) = width g \<and>
         height (apply_gravity g) = height g \<and>
         (\<forall>x. 0 \<le> x \<and> x < width g \<longrightarrow>
            column (apply_gravity g) x = compact (column g x) \<and>
            (\<forall>y y'. 0 \<le> y \<and> y < y' \<and> y' < height g \<and> cell_at (apply_gravity g) x y \<noteq> 0 \<longrightarrow>
                     cell_at (apply_gravity g) x y' \<noteq> 0) \<and>
            filter (\<lambda>v. v \<noteq> 0) (column (apply_gravity g) x) = filter (\<lambda>v. v \<noteq> 0) (column g x) \<and>
            mset (column (apply_gravity g) x) = mset (column g x))"
proof -
  note G = apply_gravity_spec[OF assms]
  have "column (apply_gravity g) x = compact (column g x) \<and>
            (\<forall>y y'. 0 \<le> y \<and> y < y' \<and> y' < height g \<and> cell_at (apply_gravity g) x y \<noteq> 0 \<longrightarrow>
                     cell_at (apply_gravity g) x y' \<noteq> 0) \<and>
            filter (\<lambda>v. v \<noteq> 0) (column (apply_gravity g) x) = filter (\<lambda>v. v \<noteq> 0) (column g x) \<and>
            mset (column (apply_gravity g) x) = mset (column g x)"
    if x: "0 \<le> x \<and> x < width g" for x
  proof -
    have c: "column (apply_gravity g) x = compact (column g x)" using G(4) x by simp
    have len: "length (column g x) = nat (height g)"
      using column_col_cells[OF assms, of x] by simp
    have cell: "cell_at (apply_gravity g) x y = compact (column g x) ! nat y"
      if "0 \<le> y" "y < height g" for y
    proof -
      have "column (apply_gravity g) x ! nat y = cell_at (apply_gravity g) x y"
        using column_col_cells[OF G(1), of x] G(3) that by simp
      then show ?thesis using c by simp
    qed
    have "cell_at (apply_gravity g) x y' \<noteq> 0"
      if "0 \<le> y \<and> y < y' \<and> y' < height g \<and> cell_at (apply_gravity g) x y \<noteq> 0" for y y'
    proof -
      have "compact (column g x) ! nat y \<noteq> 0" using cell[of y] that by simp
      moreover have "nat y < nat y'" "nat y' < length (column g x)" using that len by auto
      ultimately have "compact (column g x) ! nat y' \<noteq> 0" using compact_no_gap by blast
      then show ?thesis using cell[of y'] that by simp
    qed
    moreover have "filter (\<lambda>v. v \<noteq> 0) (column (apply_gravity g) x) = filter (\<lambda>v. v \<noteq> 0) (column g x)"
      "mset (column (apply_gravity g) x) = mset (column g x)"
      using c by (simp_all add: filter_compact mset_compact)
    ultimately show ?thesis using c by blast
  qed
  then show ?thesis using G(1,2,3) by blast
qed

text \<open>A 3 x 3 board with floating cells in the first two columns.\<close>

theorem apply_gravity_compacts_columns_witness:
  "wf_grid floating_board \<and>
   apply_gravity floating_board = board [[0, 0, 0], [1, 2, 0], [4, 3, 0]] \<and>
   column (apply_gravity floating_board) 1 = compact (column floating_board 1) \<and>
   mset (column (apply_gravity floating_board) 1) = mset (column floating_board 1)"
proof -
  have wf: "wf_grid floating_board" by (simp add: floating_board_def board_def wf_grid_def)
  have ev: "apply_gravity floating_board = board [[0, 0, 0], [1, 2, 0], [4, 3, 0]]"
    by code_simp
  have "(0::int) \<le> 1 \<and> 1 < width floating_board" by (simp add: floating_board_def board_def)
  with apply_gravity_compacts_columns[OF wf] wf ev show ?thesis by blast
qed

section \<open>Finding and clearing groups\<close>

text \<open>
  Claim C1. On a well-formed board \<open>find_and_clear_groups\<close> returns the board in which
  exactly the clearable cells have been set to EMPTY and every other cell is unchanged:
  a cell goes from occupied to EMPTY if and only if it is occupied and its group, the
  maximal 4-directionally-connected set of cells of its color, all of them occupied, has
  at least four cells. The first count returned is the number of cells cleared, the second
  the number of distinct groups among them; with no clearable cell the board is returned
  as it was, with counts \<open>(0, 0)\<close>.
\<close>

theorem find_and_clear_groups_clears_groups_of_four:
  assumes "wf_grid g"
  shows "\<exists>g'. find_and_clear_groups g =
                (g', int (card (clearable g)), int (card (group_of g ` clearable g))) \<and>
              wf_grid g' \<and> width g' = width g \<and> height g' = height g \<and>
              (\<forall>x y. in_bounds g x y \<longrightarrow>
                 cell_at g' x y = (if (x, y) \<in> clearable g then 0 else cell_at g x y)) \<and>
              (\<forall>x y. in_bounds g x y \<longrightarrow>
                 (cell_at g x y \<noteq> 0 \<and> cell_at g' x y = 0 \<longleftrightarrow> (x, y) \<in> clearable g)) \<and>
              (\<forall>p. p \<in> clearable g \<longleftrightarrow> p \<in> occupied_cells g \<and> 4 \<le> card (group_of g p)) \<and>
              (\<forall>p q. p \<in> occupied_cells g \<and> q \<in> group_of g p \<longrightarrow>
                 q \<in> occupied_cells g \<and> cell_at g (fst q) (snd q) = cell_at g (fst p) (snd p)) \<and>
              (clearable g = {} \<longrightarrow> find_and_clear_groups g = (g, 0, 0))"
proof -
  let ?g' = "clear_cells g (clearable g)"
  note C = clear_cells_spec[OF assms, where S = "clearable g"]
  have cells: "\<forall>x y. in_bounds g x y \<longrightarrow>
                 cell_at ?g' x y = (if (x, y) \<in> clearable g then 0 else cell_at g x y)"
    using C(4) by blast
  have iff: "\<forall>x y. in_bounds g x y \<longrightarrow>
                 (cell_at g x y \<noteq> 0 \<and> cell_at ?g' x y = 0 \<longleftrightarrow> (x, y) \<in> clearable g)"
    using C(4) by (auto simp: clearable_def occupied_cells_def)
  have mem: "\<forall>p. p \<in> clearable g \<longleftrightarrow> p \<in> occupied_cells g \<and> 4 \<le> card (group_of g p)"
    by (simp add: clearable_def)
  have grp: "\<forall>p q. p \<in> occupied_cells g \<and> q \<in> group_of g p \<longrightarrow>
                 q \<in> occupied_cells g \<and> cell_at g (fst q) (snd q) = cell_at g (fst p) (snd p)"
    using group_of_occupied by blast
  have none: "clearable g = {} \<longrightarrow> find_and_clear_groups g = (g, 0, 0)"
    using find_and_clear_groups_eq[OF assms] clear_cells_nothing[OF assms] by simp
  show ?thesis
    using find_and_clear_groups_eq[OF assms] C(1,2,3) cells iff mem grp none by blast
qed

text \<open>A 4 x 4 board with an L-shaped group of four cells of color 1 and a straight group
  of four cells of color 2; the three connected cells of color 3 stay.\<close>

theorem find_and_clear_groups_clears_groups_of_four_witness:
  "wf_grid two_groups_board \<and>
   find_and_clear_groups two_groups_board =
     (board [[0, 0, 0, 0], [0, 0, 3, 0], [0, 0, 3, 0], [3, 4, 3, 0]], 8, 2) \<and>
   int (card (clearable two_groups_board)) = 8 \<and>
   int (card (group_of two_groups_board ` clearable two_groups_board)) = 2"
proof -
  have wf: "wf_grid two_groups_board"
    by (simp add: two_groups_board_def board_def wf_grid_def)
  have ev: "find_and_clear_groups two_groups_board =
     (board [[0, 0, 0, 0], [0, 0, 3, 0], [0, 0, 3, 0], [3, 4, 3, 0]], 8, 2)"
    by code_simp
  from find_and_clear_groups_clears_groups_of_four[OF wf]
  obtain g' where "find_and_clear_groups two_groups_board =
      (g', int (card (clearable two_groups_board)),
       int (card (group_of two_groups_board ` clearable two_groups_board)))"
    by blast
  with ev wf show ?thesis by simp
qed

text \<open>
  Claim C9. After one \<open>find_and_clear_groups\<close> on a well-formed board no clearable cell
  is left, so a second call right after it returns the same board with counts \<open>(0, 0)\<close>.
\<close>

theorem find_and_clear_groups_twice:
  assumes "wf_grid g"
  shows "find_and_clear_groups (fst (find_and_clear_groups g)) =
           (fst (find_and_clear_groups g), 0, 0) \<and>
         clearable (fst (find_and_clear_groups g)) = {}"
proof -
  let ?g' = "clear_cells g (clearable g)"
  have g': "fst (find_and_clear_groups g) = ?g'"
    by (simp add: find_and_clear_groups_eq[OF assms])
  have wf': "wf_grid ?g'" using assms by (rule clear_cells_spec(1))
  have none: "clearable ?g' = {}" using assms by (rule clearable_after_clear)
  have "find_and_clear_groups ?g' = (?g', 0, 0)"
    using find_and_clear_groups_eq[OF wf'] clear_cells_nothing[OF wf'] none by simp
  then show ?thesis unfolding g' using none by simp
qed

theorem find_and_clear_groups_twice_witness:
  "wf_grid two_groups_board \<and>
   fst (find_and_clear_groups two_groups_board) =
     board [[0, 0, 0, 0], [0, 0, 3, 0], [0, 0, 3, 0], [3, 4, 3, 0]] \<and>
   find_and_clear_groups (board [[0, 0, 0, 0], [0, 0, 3, 0], [0, 0, 3, 0], [3, 4, 3, 0]]) =
     (board [[0, 0, 0, 0], [0, 0, 3, 0], [0, 0, 3, 0], [3, 4, 3, 0]], 0, 0)"
proof -
  have wf: "wf_grid two_groups_board"
    by (simp add: two_groups_board_def board_def wf_grid_def)
  have ev: "fst (find_and_clear_groups two_groups_board) =
     board [[0, 0, 0, 0], [0, 0, 3, 0], [0, 0, 3, 0], [3, 4, 3, 0]]"
    by code_simp
  from find_and_clear_groups_twice[OF wf] show ?thesis unfolding ev using wf by simp
qed

section \<open>The chain loop\<close>

text \<open>
  Claim C7. On a well-formed board \<open>process_chains\<close> returns: some number \<open>n\<close> of passes
  clear, the next pass clears nothing and ends the loop, and the chain count returned is
  \<open>n\<close>. Gravity keeps the number of occupied cells and every clearing pass lowers it by
  at least 4, so \<open>4 * n\<close> is at most the number of occupied cells at the start, which is at
  most \<open>width * height\<close>: \<open>n\<close> is at most \<open>width * height div 4\<close>, 18 on the 6 x 12 board.
\<close>

theorem process_chains_terminates:
  assumes "wf_grid (game_grid st)"
  shows "\<exists>n st'. process_chains st = Some st' \<and> passes_clear n st \<and>
           chain_pass (after_passes n st) = (False, st') \<and> chain_count st' = int n \<and>
           (\<forall>i<n. occupied (game_grid (after_passes (Suc i) st)) + 4
                     \<le> occupied (game_grid (after_passes i st))) \<and>
           occupied (apply_gravity (game_grid st)) = occupied (game_grid st) \<and>
           4 * int n \<le> int (occupied (game_grid st)) \<and>
           int (occupied (game_grid st)) \<le> width (game_grid st) * height (game_grid st) \<and>
           int n \<le> width (game_grid st) * height (game_grid st) div 4 \<and>
           (width (game_grid st) = 6 \<and> height (game_grid st) = 12 \<longrightarrow> n \<le> 18)"
proof -
  let ?s0 = "st\<lparr>chain_count := 0\<rparr>"
  have wf0: "wf_grid (game_grid ?s0)" using assms by simp
  from loop_terminates[OF wf0]
  obtain n where n: "\<forall>i<n. fst (chain_pass ((pass_step ^^ i) ?s0))"
    "\<not> fst (chain_pass ((pass_step ^^ n) ?s0))"
    "process_chains_loop ?s0 = Some (pass_step ((pass_step ^^ n) ?s0))"
    "4 * n \<le> occupied (game_grid ?s0)"
    by blast
  let ?st' = "pass_step (after_passes n st)"
  have pc: "passes_clear n st"
    unfolding passes_clear_iff after_passes_funpow using n(1) .
  have last: "\<not> fst (chain_pass (after_passes n st))"
    unfolding after_passes_funpow using n(2) .
  have r1: "process_chains st = Some ?st'"
    unfolding process_chains_def after_passes_funpow using n(3) .
  have r2: "chain_pass (after_passes n st) = (False, ?st')"
    using last by (simp add: pass_step_def prod_eq_iff)
  have r3: "chain_count ?st' = int n"
    using chain_pass_count[of "after_passes n st"] last chain_count_after_passes[OF pc]
    by (simp add: pass_step_def)
  have r4: "\<forall>i<n. occupied (game_grid (after_passes (Suc i) st)) + 4
                     \<le> occupied (game_grid (after_passes i st))"
  proof (intro allI impI)
    fix i assume "i < n"
    then have "fst (chain_pass (after_passes i st))" using pc passes_clear_iff by blast
    moreover have "wf_grid (game_grid (after_passes i st))" using wf_after_passes[OF assms] by blast
    ultimately show "occupied (game_grid (after_passes (Suc i) st)) + 4
                     \<le> occupied (game_grid (after_passes i st))"
      using chain_pass_wf(4) by simp
  qed
  have r5: "occupied (apply_gravity (game_grid st)) = occupied (game_grid st)"
    using assms by (rule occupied_apply_gravity)
  have r6: "4 * int n \<le> int (occupied (game_grid st))" using n(4) by simp
  have r7: "int (occupied (game_grid st)) \<le> width (game_grid st) * height (game_grid st)"
    using assms by (rule occupied_le_area)
  have r8: "int n \<le> width (game_grid st) * height (game_grid st) div 4"
    using r6 r7 by linarith
  have r9: "width (game_grid st) = 6 \<and> height (game_grid st) = 12 \<longrightarrow> n \<le> 18"
    using r8 by auto
  show ?thesis using r1 pc r2 r3 r4 r5 r6 r7 r8 r9 by blast
qed

theorem process_chains_terminates_witness:
  "wf_grid (game_grid two_groups_game) \<and>
   process_chains two_groups_game = Some two_groups_cleared \<and>
   chain_count two_groups_cleared = 1 \<and>
   (\<exists>n st'. process_chains two_groups_game = Some st' \<and> chain_count st' = int n \<and>
       4 * int n \<le> int (occupied (game_grid two_groups_game)) \<and> int n \<le> 4 * 4 div 4)"
proof -
  have wf: "wf_grid (game_grid two_groups_game)"
    by (simp add: two_groups_game_def demo_game_def two_groups_board_def board_def wf_grid_def)
  have dims: "width (game_grid two_groups_game) = 4" "height (game_grid two_groups_game) = 4"
    by (simp_all add: two_groups_game_def demo_game_def two_groups_board_def board_def)
  have cc: "chain_count two_groups_cleared = 1" by (simp add: two_groups_cleared_def)
  from process_chains_terminates[OF wf]
  have "\<exists>n st'. process_chains two_groups_game = Some st' \<and> chain_count st' = int n \<and>
       4 * int n \<le> int (occupied (game_grid two_groups_game)) \<and> int n \<le> 4 * 4 div 4"
    unfolding dims by blast
  then show ?thesis using wf two_groups_run cc by blast
qed

text \<open>
  Claim C3. Take pass number \<open>n + 1\<close> of one \<open>process_chains\<close> call, all passes up to it
  clearing. The chain counter, reset to 0 before the first pass, is \<open>n\<close> before this pass
  and \<open>n + 1\<close> after it, and the pass adds
  \<open>cleared_count * 10 * max 1 (chain_count * 2) * groups_cleared\<close> to the score, with the
  counts of this pass and the chain counter already incremented; the loop goes on from
  the state so reached. A first pass that clears 8 cells in 2 groups adds 320.
\<close>

theorem chain_pass_score:
  assumes "passes_clear (Suc n) st"
  shows "\<exists>g' cleared groups.
           find_and_clear_groups (apply_gravity (game_grid (after_passes n st))) =
             (g', cleared, groups) \<and>
           cleared \<noteq> 0 \<and>
           chain_count (after_passes 0 st) = 0 \<and>
           chain_count (after_passes n st) = int n \<and>
           chain_count (after_passes (Suc n) st) = int n + 1 \<and>
           score (after_passes (Suc n) st) =
             score (after_passes n st) +
             cleared * 10 * max 1 (chain_count (after_passes (Suc n) st) * 2) * groups \<and>
           process_chains st = process_chains_loop (after_passes (Suc n) st) \<and>
           (n = 0 \<and> cleared = 8 \<and> groups = 2 \<longrightarrow>
              score (after_passes (Suc n) st) = score st + 320)"
proof -
  let ?s = "after_passes n st"
  obtain g' cleared groups where
    F: "find_and_clear_groups (apply_gravity (game_grid ?s)) = (g', cleared, groups)"
    by (cases "find_and_clear_groups (apply_gravity (game_grid ?s))") auto
  note P = chain_pass_cases[OF F]
  have pn: "passes_clear n st" and cont: "fst (chain_pass ?s)" using assms by simp_all
  have c0: "cleared \<noteq> 0" using cont unfolding P by (simp split: if_splits)
  have cn: "chain_count ?s = int n" using pn by (rule chain_count_after_passes)
  have cs: "chain_count (after_passes (Suc n) st) = int n + 1"
    using chain_count_after_passes[OF assms] by simp
  have sc: "score (after_passes (Suc n) st) =
             score ?s + cleared * 10 * max 1 (chain_count (after_passes (Suc n) st) * 2) * groups"
    unfolding cs using c0 cn by (simp add: P)
  have pr: "process_chains st = process_chains_loop (after_passes (Suc n) st)"
    using assms by (rule process_chains_after_passes)
  have ex: "n = 0 \<and> cleared = 8 \<and> groups = 2 \<longrightarrow>
              score (after_passes (Suc n) st) = score st + 320"
    using sc cs by auto
  show ?thesis using F c0 cn cs sc pr ex by (intro exI[of _ g'] exI[of _ cleared] exI[of _ groups]) simp
qed

theorem chain_pass_score_witness:
  "passes_clear (Suc 0) two_groups_game \<and>
   find_and_clear_groups (apply_gravity (game_grid (after_passes 0 two_groups_game))) =
     (board [[0, 0, 0, 0], [0, 0, 3, 0], [0, 0, 3, 0], [3, 4, 3, 0]], 8, 2) \<and>
   score (after_passes (Suc 0) two_groups_game) = score two_groups_game + 320 \<and>
   chain_count (after_passes (Suc 0) two_groups_game) = 1 \<and>
   process_chains two_groups_game = Some two_groups_cleared"
proof -
  have pc: "passes_clear (Suc 0) two_groups_game" by (simp add: two_groups_passes)
  have ev: "find_and_clear_groups (apply_gravity (game_grid (after_passes 0 two_groups_game))) =
     (board [[0, 0, 0, 0], [0, 0, 3, 0], [0, 0, 3, 0], [3, 4, 3, 0]], 8, 2)"
    by code_simp
  from chain_pass_score[OF pc]
  have "score (after_passes (Suc 0) two_groups_game) = score two_groups_game + 320"
    "chain_count (after_passes (Suc 0) two_groups_game) = 1"
    unfolding ev by auto
  then show ?thesis using pc ev two_groups_run by blast
qed

end
